theory Spec2Isabelle
  imports Main "HOL-Library.Word"
begin

section \<open>Shared types (types.ts)\<close>

text \<open>
  \<open>RiskLevel\<close> is the string union of types.ts; \<open>RISK_ORDER\<close> is the table that ranks it.
\<close>

datatype RiskLevel = critical | high | medium | low | none

fun RISK_ORDER :: "RiskLevel \<Rightarrow> nat" where
  "RISK_ORDER none = 0"
| "RISK_ORDER low = 1"
| "RISK_ORDER medium = 2"
| "RISK_ORDER high = 3"
| "RISK_ORDER critical = 4"

fun risk_name :: "RiskLevel \<Rightarrow> string" where
  "risk_name critical = ''critical''"
| "risk_name high = ''high''"
| "risk_name medium = ''medium''"
| "risk_name low = ''low''"
| "risk_name none = ''none''"

text \<open>
  Values of type \<open>unknown\<close> that reach the ledger (\<open>metadata\<close>, tool arguments) are JSON
  data; an object keeps its properties in insertion order. Numbers that count (sequence
  numbers, lengths) are natural numbers and the configured limit \<open>maxEntries\<close> is an
  integer: the model does not follow a JavaScript number beyond \<open>2^53\<close> or into
  fractions.
\<close>

datatype json =
    JNull
  | JBool bool
  | JNum int
  | JStr string
  | JArr "json list"
  | JObj "(string \<times> json) list"

record AuditLedgerConfig =
  enabled :: bool
  localPath :: string
  forwardToGateway :: bool
  maxEntries :: int

record AuditEntry =
  entryId :: string
  sequence :: nat
  hash :: string
  prevHash :: string
  signature :: string
  timestamp :: string
  action :: string
  toolName :: "string option"
  riskLevel :: RiskLevel
  consentRequired :: bool
  consentGranted :: "bool option"
  dataTokenized :: bool
  injectionDetected :: bool
  metadata :: "(string \<times> json) list"

record ChainVerification =
  valid :: bool
  totalEntries :: nat
  brokenAtSequence :: "nat option"
  brokenAtId :: "string option"
  reason :: "string option"

section \<open>Runtime primitives\<close>

text \<open>
  The ledger calls three functions of the JavaScript runtime that are not code of the
  repository: \<open>createHash('sha256')\<close>, \<open>createHmac('sha256', key)\<close> and
  \<open>JSON.stringify\<close>. They are parameters of the model. A SHA-256 digest is 256 bits;
  \<open>digest('hex')\<close> renders it as lower-case hexadecimal, two characters per byte.
\<close>

type_synonym byte = "8 word"

record runtime =
  sha256 :: "string \<Rightarrow> 256 word"
  hmac_sha256 :: "byte list \<Rightarrow> string \<Rightarrow> 256 word"
  stringify :: "json \<Rightarrow> string"

definition hex_digit :: "nat \<Rightarrow> char" where
  "hex_digit d = ''0123456789abcdef'' ! d"

fun hex_of :: "nat \<Rightarrow> nat \<Rightarrow> string" where
  "hex_of 0 v = []"
| "hex_of (Suc n) v = hex_of n (v div 16) @ [hex_digit (v mod 16)]"

definition digest_hex :: "256 word \<Rightarrow> string" where
  "digest_hex w = hex_of 64 (unat w)"

text \<open>Decimal rendering of a sequence number inside a template string.\<close>

fun show_nat :: "nat \<Rightarrow> string" where
  "show_nat n =
     (if n < 10 then [''0123456789'' ! n]
      else show_nat (n div 10) @ [''0123456789'' ! (n mod 10)])"

declare show_nat.simps [simp del]

text \<open>
  \<open>Array.prototype.slice(start)\<close> with an integer argument: a negative start counts from
  the end, and the start is clamped to the array.
\<close>

definition slice_from :: "int \<Rightarrow> 'a list \<Rightarrow> 'a list" where
  "slice_from start xs =
     (let len = int (length xs);
          k = (if start < 0 then max (len + start) 0 else min start len)
      in drop (nat k) xs)"

section \<open>Audit ledger (audit-ledger.ts)\<close>

definition GENESIS_HASH :: string where
  "GENESIS_HASH = ''0000000000000000000000000000000000000000000000000000000000000000''"

text \<open>What was last written to \<open>config.localPath\<close> by \<open>saveChain\<close>.\<close>

record SavedChain =
  saved_entries :: "AuditEntry list"
  saved_sequence :: nat
  saved_lastHash :: string
  savedAt :: string

text \<open>
  The fields of the class. \<open>counter\<close> is the private field \<open>sequence\<close>; \<open>chainFile\<close> is the
  content of the chain file on disk and \<open>forwarded\<close> the entries handed to
  \<open>forwardEntry\<close>, whose outcome the ledger never waits for.
\<close>

record AuditLedger =
  entries :: "AuditEntry list"
  secret :: "byte list"
  lastHash :: string
  counter :: nat
  config :: AuditLedgerConfig
  gatewayUrl :: "string option"
  gatewayKey :: "string option"
  chainFile :: "SavedChain option"
  forwarded :: "AuditEntry list"

text \<open>The argument of \<open>append\<close>.\<close>

record AppendParams =
  p_action :: string
  p_toolName :: "string option"
  p_riskLevel :: RiskLevel
  p_consentRequired :: bool
  p_consentGranted :: "bool option"
  p_dataTokenized :: bool
  p_injectionDetected :: bool
  p_metadata :: "(string \<times> json) list option"

text \<open>
  What one call of \<open>append\<close> reads from its environment: the result of \<open>randomUUID()\<close>,
  the two clock readings, and whether the write of the chain file succeeds.
\<close>

record AppendEnv =
  uuid :: string
  now :: string
  saveTime :: string
  writeOk :: bool

datatype error = WriteFailed | TypeError

text \<open>
  The object passed to \<open>JSON.stringify\<close>, in the source's property order. A property
  whose value is \<open>undefined\<close> is left out by \<open>JSON.stringify\<close>.
\<close>

definition contentForHash :: "runtime \<Rightarrow> AuditEntry \<Rightarrow> string" where
  "contentForHash R e = stringify R (JObj (
     [(''id'', JStr (entryId e)),
      (''sequence'', JNum (int (sequence e))),
      (''timestamp'', JStr (timestamp e)),
      (''action'', JStr (action e))]
     @ (case toolName e of None \<Rightarrow> [] | Some t \<Rightarrow> [(''toolName'', JStr t)])
     @ [(''riskLevel'', JStr (risk_name (riskLevel e))),
        (''consentRequired'', JBool (consentRequired e))]
     @ (case consentGranted e of None \<Rightarrow> [] | Some g \<Rightarrow> [(''consentGranted'', JBool g)])
     @ [(''dataTokenized'', JBool (dataTokenized e)),
        (''injectionDetected'', JBool (injectionDetected e)),
        (''metadata'', JObj (metadata e))]))"

definition computeHash :: "runtime \<Rightarrow> AuditEntry \<Rightarrow> string" where
  "computeHash R e = digest_hex (sha256 R (contentForHash R e))"

definition sigPayload :: "AuditEntry \<Rightarrow> string" where
  "sigPayload e = show_nat (sequence e) @ ''|'' @ entryId e @ ''|'' @ hash e @ ''|'' @ prevHash e"

definition computeSignature :: "runtime \<Rightarrow> byte list \<Rightarrow> AuditEntry \<Rightarrow> string" where
  "computeSignature R key e = digest_hex (hmac_sha256 R key (sigPayload e))"

text \<open>The entry built by \<open>append\<close> (lines 72 to 109), for the incremented counter \<open>n\<close>.\<close>

definition newEntry :: "runtime \<Rightarrow> AppendEnv \<Rightarrow> AppendParams \<Rightarrow> AuditLedger \<Rightarrow> nat \<Rightarrow> AuditEntry" where
  "newEntry R env p L n =
     (let e0 = \<lparr> entryId = uuid env, sequence = n, hash = '''', prevHash = lastHash L,
                 signature = '''', timestamp = now env, action = p_action p,
                 toolName = p_toolName p, riskLevel = p_riskLevel p,
                 consentRequired = p_consentRequired p, consentGranted = p_consentGranted p,
                 dataTokenized = p_dataTokenized p, injectionDetected = p_injectionDetected p,
                 metadata = (case p_metadata p of None \<Rightarrow> [] | Some m \<Rightarrow> m) \<rparr>;
          e1 = e0\<lparr> hash := computeHash R e0 \<rparr>
      in e1\<lparr> signature := computeSignature R (secret L) e1 \<rparr>)"

definition trim :: "AuditLedger \<Rightarrow> AuditLedger" where
  "trim L =
     (if maxEntries (config L) > 0 \<and> int (length (entries L)) > maxEntries (config L)
      then L\<lparr> entries := slice_from (- maxEntries (config L)) (entries L) \<rparr>
      else L)"

text \<open>\<open>saveChain\<close>: \<open>writeFileSync\<close> (or \<open>mkdirSync\<close>) throws when the write fails.\<close>

definition saveChain :: "AppendEnv \<Rightarrow> AuditLedger \<Rightarrow> error + AuditLedger" where
  "saveChain env L =
     (if writeOk env
      then Inr (L\<lparr> chainFile := Some \<lparr> saved_entries = entries L, saved_sequence = counter L,
                                  saved_lastHash = lastHash L, savedAt = saveTime env \<rparr> \<rparr>)
      else Inl WriteFailed)"

definition forward :: "AuditEntry \<Rightarrow> AuditLedger \<Rightarrow> AuditLedger" where
  "forward e L =
     (if forwardToGateway (config L) \<and> gatewayUrl L \<noteq> None \<and> gatewayUrl L \<noteq> Some ''''
      then L\<lparr> forwarded := forwarded L @ [e] \<rparr>
      else L)"

text \<open>
  \<open>append\<close>. The fields are assigned before \<open>saveChain\<close> is called, so an exception of
  \<open>saveChain\<close> leaves the call with the ledger as it is at that point: the second
  component is the ledger after the call, whether it returned or threw.
\<close>

definition ledger_append ::
  "runtime \<Rightarrow> AppendEnv \<Rightarrow> AppendParams \<Rightarrow> AuditLedger \<Rightarrow> (error + AuditEntry) \<times> AuditLedger" where
  "ledger_append R env p L =
     (let n = counter L + 1;
          entry = newEntry R env p L n;
          L1 = L\<lparr> counter := n, lastHash := hash entry, entries := entries L @ [entry] \<rparr>;
          L2 = trim L1
      in case saveChain env L2 of
           Inl err \<Rightarrow> (Inl err, L2)
         | Inr L3 \<Rightarrow> (Inr entry, forward entry L3))"

definition broken :: "nat \<Rightarrow> AuditEntry \<Rightarrow> string \<Rightarrow> ChainVerification" where
  "broken tot e why =
     \<lparr> valid = False, totalEntries = tot, brokenAtSequence = Some (sequence e),
       brokenAtId = Some (entryId e), reason = Some (why @ show_nat (sequence e)) \<rparr>"

definition intact :: "nat \<Rightarrow> ChainVerification" where
  "intact tot =
     \<lparr> valid = True, totalEntries = tot, brokenAtSequence = None,
       brokenAtId = None, reason = None \<rparr>"

text \<open>The \<open>for\<close> loop of \<open>verify\<close>, with \<open>expectedPrevHash\<close> as an argument.\<close>

fun verify_loop :: "runtime \<Rightarrow> byte list \<Rightarrow> nat \<Rightarrow> string \<Rightarrow> AuditEntry list \<Rightarrow> ChainVerification" where
  "verify_loop R key tot expectedPrevHash [] = intact tot"
| "verify_loop R key tot expectedPrevHash (e # es) =
     (if prevHash e \<noteq> expectedPrevHash then broken tot e ''prevHash mismatch at sequence ''
      else if hash e \<noteq> computeHash R e then broken tot e ''Content hash mismatch at sequence ''
      else if signature e \<noteq> computeSignature R key e then broken tot e ''Signature mismatch at sequence ''
      else verify_loop R key tot (hash e) es)"

definition verify :: "runtime \<Rightarrow> AuditLedger \<Rightarrow> ChainVerification" where
  "verify R L =
     (if length (entries L) = 0 then intact 0
      else verify_loop R (secret L) (length (entries L)) GENESIS_HASH (entries L))"

definition getRecent :: "int option \<Rightarrow> AuditLedger \<Rightarrow> AuditEntry list" where
  "getRecent n L = slice_from (- (case n of None \<Rightarrow> 50 | Some k \<Rightarrow> k)) (entries L)"

text \<open>
  The ledger a constructor call yields when no chain file exists yet: the field
  initialisers, the key it was given or drew, and the arguments.
\<close>

definition newLedger :: "AuditLedgerConfig \<Rightarrow> string option \<Rightarrow> string option \<Rightarrow> byte list \<Rightarrow> AuditLedger" where
  "newLedger cfg url key sec =
     \<lparr> entries = [], secret = sec, lastHash = GENESIS_HASH, counter = 0, config = cfg,
       gatewayUrl = url, gatewayKey = key, chainFile = None, forwarded = [] \<rparr>"

text \<open>A sequence of \<open>append\<close> calls on one ledger; a call that throws does not stop the next.\<close>

fun appends :: "runtime \<Rightarrow> (AppendEnv \<times> AppendParams) list \<Rightarrow> AuditLedger \<Rightarrow> (error + AuditEntry) list \<times> AuditLedger" where
  "appends R [] L = ([], L)"
| "appends R (c # cs) L =
     (case ledger_append R (fst c) (snd c) L of
        (r, L') \<Rightarrow> (case appends R cs L' of (rs, L'') \<Rightarrow> (r # rs, L'')))"



section \<open>Notions used to state the ledger properties\<close>

text \<open>
  \<open>linked\<close> says that every entry of a list passes the three checks of \<open>verify\<close> when
  the walk starts with the given expected previous hash; \<open>tip\<close> is the expected previous
  hash after such a walk.
\<close>

fun linked :: "runtime \<Rightarrow> byte list \<Rightarrow> string \<Rightarrow> AuditEntry list \<Rightarrow> bool" where
  "linked R key expected [] = True"
| "linked R key expected (e # es) =
     (prevHash e = expected \<and> hash e = computeHash R e \<and>
      signature e = computeSignature R key e \<and> linked R key (hash e) es)"

definition tip :: "string \<Rightarrow> AuditEntry list \<Rightarrow> string" where
  "tip expected es = (if es = [] then expected else hash (last es))"

definition honest :: "runtime \<Rightarrow> AuditLedger \<Rightarrow> bool" where
  "honest R L \<longleftrightarrow>
     linked R (secret L) GENESIS_HASH (entries L) \<and> lastHash L = tip GENESIS_HASH (entries L)"

text \<open>
  \<open>retained_of L U\<close>: ledger \<open>L\<close> holds the newest entries of the ledger \<open>U\<close> that keeps
  everything, and both have the same chain tip.
\<close>

definition retained_of :: "AuditLedger \<Rightarrow> AuditLedger \<Rightarrow> bool" where
  "retained_of L U \<longleftrightarrow>
     counter L = counter U \<and> lastHash L = lastHash U \<and> secret L = secret U \<and>
     maxEntries (config U) \<le> 0 \<and>
     entries L =
       (if 0 < maxEntries (config L)
        then drop (length (entries U) - nat (maxEntries (config L))) (entries U)
        else entries U)"

text \<open>Tampering with the stored chain: the entry at index \<open>i\<close> is overwritten.\<close>

definition replaceEntry :: "nat \<Rightarrow> AuditEntry \<Rightarrow> AuditLedger \<Rightarrow> AuditLedger" where
  "replaceEntry i e L = L\<lparr> entries := (entries L)[i := e] \<rparr>"


section \<open>Consent gate (consent-gate.ts)\<close>

subsection \<open>Risk classification\<close>

text \<open>\<open>TOOL_RISK_MAP\<close>, in the order of the object literal.\<close>

definition TOOL_RISK_MAP :: "(string \<times> RiskLevel) list" where
  "TOOL_RISK_MAP =
     [(''exec'', critical), (''spawn'', critical), (''shell'', critical),
      (''run_command'', critical), (''execute'', critical),
      (''fs_write'', high), (''fs_delete'', high), (''file_write'', high),
      (''file_delete'', high), (''apply_patch'', high), (''rm'', high), (''rmdir'', high),
      (''git_push'', high), (''deploy'', high),
      (''send_email'', medium), (''email_send'', medium), (''sessions_send'', medium),
      (''slack_send'', medium), (''http_request'', medium), (''api_call'', medium),
      (''fs_read'', low), (''file_read'', low), (''search'', low), (''query'', low)]"

text \<open>
  \<open>TOOL_RISK_MAP[toolName]\<close> is a property read on an object literal. It finds the own
  properties above and, for any other key, the properties the literal inherits from
  \<open>Object.prototype\<close>, which are functions (an object for \<open>__proto__\<close>) and hence truthy.
  The inherited names are those of the JavaScript runtime.
\<close>

definition OBJECT_PROTOTYPE_KEYS :: "string list" where
  "OBJECT_PROTOTYPE_KEYS =
     [''constructor'', ''__defineGetter__'', ''__defineSetter__'', ''hasOwnProperty'',
      ''__lookupGetter__'', ''__lookupSetter__'', ''isPrototypeOf'', ''propertyIsEnumerable'',
      ''toString'', ''valueOf'', ''__proto__'', ''toLocaleString'']"

text \<open>
  What \<open>classifyRisk\<close> can return: a risk level, or the member of \<open>Object.prototype\<close>
  stored under the given name.
\<close>

datatype risk_value = Level RiskLevel | Inherited string

definition property :: "string \<Rightarrow> risk_value option" where
  "property key =
     (case map_of TOOL_RISK_MAP key of
        Some level \<Rightarrow> Some (Level level)
      | None \<Rightarrow> if key \<in> set OBJECT_PROTOTYPE_KEYS then Some (Inherited key) else None)"

text \<open>
  Strings are lists of code units below 256. \<open>toLowerCase\<close> maps the capital letters of
  that range to their small letters.
\<close>

definition lower_char :: "char \<Rightarrow> char" where
  "lower_char c =
     (let n = (of_char c :: nat)
      in if (65 \<le> n \<and> n \<le> 90) \<or> (192 \<le> n \<and> n \<le> 222 \<and> n \<noteq> 215)
         then char_of (n + 32) else c)"

definition toLowerCase :: "string \<Rightarrow> string" where
  "toLowerCase s = map lower_char s"

fun startsWith :: "string \<Rightarrow> string \<Rightarrow> bool" where
  "startsWith s [] = True"
| "startsWith [] (p # ps) = False"
| "startsWith (c # cs) (p # ps) = (c = p \<and> startsWith cs ps)"

text \<open>\<open>String.prototype.includes\<close>.\<close>

fun str_includes :: "string \<Rightarrow> string \<Rightarrow> bool" where
  "str_includes [] p = (p = [])"
| "str_includes (c # cs) p = (startsWith (c # cs) p \<or> str_includes cs p)"

text \<open>The \<open>for\<close> loop over \<open>Object.entries(TOOL_RISK_MAP)\<close>.\<close>

fun firstMatch :: "string \<Rightarrow> (string \<times> RiskLevel) list \<Rightarrow> RiskLevel option" where
  "firstMatch lower [] = None"
| "firstMatch lower (entry # rest) =
     (if str_includes lower (fst entry) then Some (snd entry) else firstMatch lower rest)"

definition classifyRisk :: "string \<Rightarrow> risk_value" where
  "classifyRisk tool =
     (case property tool of
        Some v \<Rightarrow> v
      | None \<Rightarrow>
          (case firstMatch (toLowerCase tool) TOOL_RISK_MAP of
             Some level \<Rightarrow> Level level
           | None \<Rightarrow> Level low))"

text \<open>
  The classifier as the specification words it: exact lookup in the table, then the
  first entry in declared order whose key is a case-insensitive substring of the name,
  then \<open>low\<close>.
\<close>

definition classify_spec :: "string \<Rightarrow> RiskLevel" where
  "classify_spec name =
     (case map_of TOOL_RISK_MAP name of
        Some level \<Rightarrow> level
      | None \<Rightarrow>
          (case find (\<lambda>entry. str_includes (toLowerCase name) (toLowerCase (fst entry))) TOOL_RISK_MAP of
             Some entry \<Rightarrow> snd entry
           | None \<Rightarrow> low))"

record ConsentGateConfig =
  gate_enabled :: bool
  alwaysRequire :: "string list"
  neverRequire :: "string list"
  timeoutMs :: nat
  riskThreshold :: RiskLevel

text \<open>
  \<open>RISK_ORDER[risk] >= RISK_ORDER[threshold]\<close>. For a value that is not a risk level the
  left side is \<open>undefined\<close>, and the comparison is false.
\<close>

fun riskAtLeast :: "risk_value \<Rightarrow> RiskLevel \<Rightarrow> bool" where
  "riskAtLeast (Level risk) threshold = (RISK_ORDER risk \<ge> RISK_ORDER threshold)"
| "riskAtLeast (Inherited k) threshold = False"

definition requiresConsent :: "ConsentGateConfig \<Rightarrow> string \<Rightarrow> bool" where
  "requiresConsent cfg tool =
     (if tool \<in> set (neverRequire cfg) then False
      else if tool \<in> set (alwaysRequire cfg) then True
      else riskAtLeast (classifyRisk tool) (riskThreshold cfg))"

subsection \<open>Consent requests\<close>

datatype ConsentStatus = pending | approved | rejected | timeout

fun status_name :: "ConsentStatus \<Rightarrow> string" where
  "status_name pending = ''pending''"
| "status_name approved = ''approved''"
| "status_name rejected = ''rejected''"
| "status_name timeout = ''timeout''"

record ConsentRequest =
  requestId :: string
  r_toolName :: string
  toolArgs :: "(string \<times> json) list"
  r_riskLevel :: RiskLevel
  r_reason :: string
  status :: ConsentStatus
  createdAt :: string
  resolvedAt :: "string option"

record ToolCallEvent =
  ev_toolName :: string
  args :: "(string \<times> json) list"
  sessionId :: string
  ev_timestamp :: string

record ToolCallResult =
  blocked :: bool
  block_reason :: "string option"

text \<open>
  \<open>intercept\<close> is asynchronous. A call that needs consent lives on as a frame: its
  local variables (the event, the risk, the request object that the pending table and
  the timer closure also refer to), the promise made by \<open>waitForApproval\<close> (unsettled,
  or resolved with a value; \<open>resolve\<close> on a settled promise does nothing), whether its
  timer is still to fire, and where the call stands: awaiting \<open>sendMessage\<close>, awaiting
  the promise, or finished with a result or an exception.
\<close>

datatype frame_state = Sending | Waiting | Returned ToolCallResult | Threw error

record Frame =
  f_event :: ToolCallEvent
  f_risk :: RiskLevel
  f_request :: ConsentRequest
  f_promise :: "bool option"
  f_timer :: bool
  f_state :: frame_state

text \<open>
  The gate: its configuration, the pending table (request id to the frame holding the
  request and the resolver), the frames, and the calls it has made to
  \<open>ledger.append\<close>, in order.
\<close>

record ConsentGate =
  gate_config :: ConsentGateConfig
  pendingRequests :: "string \<rightharpoonup> nat"
  frames :: "Frame list"
  appended :: "AppendParams list"

definition newGate :: "ConsentGateConfig \<Rightarrow> ConsentGate" where
  "newGate cfg = \<lparr> gate_config = cfg, pendingRequests = Map.empty, frames = [], appended = [] \<rparr>"

text \<open>
  \<open>intercept\<close> up to \<open>await ctx.sendMessage(message)\<close>. Without consent it returns at
  once. \<open>formatConsentMessage\<close> calls \<open>toUpperCase\<close> on the risk, which throws a
  TypeError when the risk is not a string; the text of the message is not modelled.
\<close>

definition interceptBegin ::
  "ToolCallEvent \<Rightarrow> string \<Rightarrow> string \<Rightarrow> ConsentGate \<Rightarrow> (error + ToolCallResult) option \<times> ConsentGate" where
  "interceptBegin ev uid clock G =
     (if \<not> requiresConsent (gate_config G) (ev_toolName ev)
      then (Some (Inr \<lparr> blocked = False, block_reason = None \<rparr>), G)
      else case classifyRisk (ev_toolName ev) of
             Inherited k \<Rightarrow> (Some (Inl TypeError), G)
           | Level risk \<Rightarrow>
               (None,
                G\<lparr> frames := frames G @
                  [\<lparr> f_event = ev, f_risk = risk,
                     f_request =
                       \<lparr> requestId = uid, r_toolName = ev_toolName ev, toolArgs = args ev,
                         r_riskLevel = risk,
                         r_reason = ''Tool '' @ [CHR 0x22] @ ev_toolName ev @ [CHR 0x22] @
                                    '' classified as '' @ risk_name risk @ '' risk'',
                         status = pending, createdAt = clock, resolvedAt = None \<rparr>,
                     f_promise = None, f_timer = False, f_state = Sending \<rparr>] \<rparr>))"

definition resolve :: "nat \<Rightarrow> bool \<Rightarrow> ConsentGate \<Rightarrow> ConsentGate" where
  "resolve a v G =
     (if a < length (frames G) \<and> f_promise (frames G ! a) = None
      then G\<lparr> frames := (frames G)[a := (frames G ! a)\<lparr> f_promise := Some v \<rparr>] \<rparr>
      else G)"

text \<open>The executor of the promise in \<open>waitForApproval\<close>: register, arm the timer.\<close>

definition waitForApproval :: "nat \<Rightarrow> ConsentGate \<Rightarrow> ConsentGate" where
  "waitForApproval a G =
     G\<lparr> pendingRequests := (pendingRequests G)(requestId (f_request (frames G ! a)) \<mapsto> a),
        frames := (frames G)[a := (frames G ! a)\<lparr> f_timer := True, f_state := Waiting \<rparr>] \<rparr>"

text \<open>The callback given to \<open>setTimeout\<close>.\<close>

definition timeoutCallback :: "nat \<Rightarrow> ConsentGate \<Rightarrow> ConsentGate" where
  "timeoutCallback a G =
     (let f = frames G ! a; cid = requestId (f_request f)
      in if pendingRequests G cid \<noteq> None
         then resolve a False
                (G\<lparr> frames := (frames G)[a := f\<lparr> f_request := (f_request f)\<lparr> status := timeout \<rparr> \<rparr>],
                    pendingRequests := (pendingRequests G)(cid := None) \<rparr>)
         else G)"

definition handleResponse :: "string \<Rightarrow> bool \<Rightarrow> ConsentGate \<Rightarrow> bool \<times> ConsentGate" where
  "handleResponse consentId isApproved G =
     (case pendingRequests G consentId of
        None \<Rightarrow> (False, G)
      | Some a \<Rightarrow>
          (True, (resolve a isApproved G)\<lparr> pendingRequests := (pendingRequests G)(consentId := None) \<rparr>))"

text \<open>
  \<open>intercept\<close> after \<open>await this.waitForApproval(request)\<close>, for the value the promise
  was resolved with. \<open>appendOk\<close> tells whether \<open>ledger.append\<close> returns or throws.
\<close>

definition decisionRecord :: "Frame \<Rightarrow> ConsentStatus \<Rightarrow> bool \<Rightarrow> AppendParams" where
  "decisionRecord f st isApproved =
     \<lparr> p_action = ''consent_'' @ status_name st,
       p_toolName = Some (ev_toolName (f_event f)),
       p_riskLevel = f_risk f,
       p_consentRequired = True,
       p_consentGranted = Some isApproved,
       p_dataTokenized = False,
       p_injectionDetected = False,
       p_metadata = Some [(''consentId'', JStr (requestId (f_request f))),
                          (''toolArgs'', JObj (args (f_event f)))] \<rparr>"

definition interceptResume :: "nat \<Rightarrow> bool \<Rightarrow> string \<Rightarrow> bool \<Rightarrow> ConsentGate \<Rightarrow> ConsentGate" where
  "interceptResume a isApproved clock appendOk G =
     (let f = frames G ! a;
          wasTimeout = (status (f_request f) = timeout);
          st = (if wasTimeout then timeout else if isApproved then approved else rejected);
          req = (f_request f)\<lparr> status := st, resolvedAt := Some clock \<rparr>;
          outcome =
            (if \<not> appendOk then Threw WriteFailed
             else if \<not> isApproved
               then Returned \<lparr> blocked = True,
                      block_reason = Some (''Tool call rejected: '' @
                        (if wasTimeout then ''approval timed out'' else ''user rejected'')) \<rparr>
             else Returned \<lparr> blocked = False, block_reason = None \<rparr>)
      in G\<lparr> frames := (frames G)[a := f\<lparr> f_request := req, f_state := outcome \<rparr>],
            appended := appended G @ [decisionRecord (f\<lparr> f_request := req \<rparr>) st isApproved] \<rparr>)"

text \<open>
  What can happen to a gate, one atomic step of the event loop each: a call of
  \<open>intercept\<close>, the completion of a frame's \<open>sendMessage\<close>, a call of \<open>handleResponse\<close>,
  a frame's timer firing, and a frame resuming once its promise is settled. A step
  that cannot happen in the state at hand (a timer that is not armed, a frame that is
  not waiting) leaves the state as it is.
\<close>

datatype gate_event =
    Intercept ToolCallEvent string string
  | SendDone nat
  | Response string bool
  | TimerFired nat
  | Resume nat string bool

fun gate_step :: "gate_event \<Rightarrow> ConsentGate \<Rightarrow> ConsentGate" where
  "gate_step (Intercept ev uid clock) G = snd (interceptBegin ev uid clock G)"
| "gate_step (SendDone a) G =
     (if a < length (frames G) \<and> f_state (frames G ! a) = Sending
      then waitForApproval a G else G)"
| "gate_step (Response consentId isApproved) G = snd (handleResponse consentId isApproved G)"
| "gate_step (TimerFired a) G =
     (if a < length (frames G) \<and> f_timer (frames G ! a)
      then timeoutCallback a (G\<lparr> frames := (frames G)[a := (frames G ! a)\<lparr> f_timer := False \<rparr>] \<rparr>)
      else G)"
| "gate_step (Resume a clock appendOk) G =
     (if a < length (frames G) \<and> f_state (frames G ! a) = Waiting
      then (case f_promise (frames G ! a) of
              None \<Rightarrow> G
            | Some isApproved \<Rightarrow> interceptResume a isApproved clock appendOk G)
      else G)"

fun run_gate :: "gate_event list \<Rightarrow> ConsentGate \<Rightarrow> ConsentGate" where
  "run_gate [] G = G"
| "run_gate (e # es) G = run_gate es (gate_step e G)"

text \<open>The request ids drawn by the \<open>intercept\<close> calls of a schedule.\<close>

fun uuids :: "gate_event list \<Rightarrow> string list" where
  "uuids [] = []"
| "uuids (Intercept ev uid clock # es) = uid # uuids es"
| "uuids (e # es) = uuids es"

text \<open>The decision records among the ledger calls that carry a given consent id.\<close>

definition consentIdOf :: "AppendParams \<Rightarrow> string option" where
  "consentIdOf p =
     (case p_metadata p of
        None \<Rightarrow> None
      | Some m \<Rightarrow> (case map_of m ''consentId'' of Some (JStr s) \<Rightarrow> Some s | _ \<Rightarrow> None))"

definition decisions :: "string \<Rightarrow> ConsentGate \<Rightarrow> AppendParams list" where
  "decisions cid G = filter (\<lambda>p. consentIdOf p = Some cid) (appended G)"

definition finished :: "Frame \<Rightarrow> bool" where
  "finished f = (case f_state f of Returned r \<Rightarrow> True | Threw e \<Rightarrow> True | _ \<Rightarrow> False)"

subsection \<open>Notions used to state the gate properties\<close>

definition rid :: "ConsentGate \<Rightarrow> nat \<Rightarrow> string" where
  "rid G a = requestId (f_request (frames G ! a))"

definition rids :: "ConsentGate \<Rightarrow> string list" where
  "rids G = map (\<lambda>f. requestId (f_request f)) (frames G)"

definition statusOf :: "ConsentGate \<Rightarrow> nat \<Rightarrow> ConsentStatus" where
  "statusOf G a = status (f_request (frames G ! a))"

text \<open>
  The terminal status of a request claimed with value \<open>v\<close>: the timer leaves \<open>timeout\<close>
  behind when it claims, a response leaves the status to \<open>intercept\<close>.
\<close>

definition terminal :: "ConsentStatus \<Rightarrow> bool \<Rightarrow> ConsentStatus" where
  "terminal st v = (if st = timeout then timeout else if v then approved else rejected)"

text \<open>What holds of every frame of a gate reached from \<open>newGate\<close> with fresh request ids.\<close>

definition frame_ok :: "ConsentGate \<Rightarrow> nat \<Rightarrow> bool" where
  "frame_ok G a \<longleftrightarrow>
     (let f = frames G ! a; st = status (f_request f); cid = requestId (f_request f)
      in (f_state f = Sending \<longrightarrow> f_promise f = None \<and> \<not> f_timer f) \<and>
         (f_promise f = None \<longrightarrow> st = pending \<and> \<not> finished f) \<and>
         pendingRequests G cid =
           (if f_state f = Waiting \<and> f_promise f = None then Some a else None) \<and>
         (\<forall>v. f_promise f = Some v \<longrightarrow>
            (st = timeout \<longrightarrow> \<not> v) \<and>
            (if finished f then st = terminal st v else st = pending \<or> st = timeout) \<and>
            decisions cid G = (if finished f then [decisionRecord f st v] else [])) \<and>
         (f_promise f = None \<longrightarrow> decisions cid G = []))"

definition gate_inv :: "ConsentGate \<Rightarrow> bool" where
  "gate_inv G \<longleftrightarrow>
     distinct (rids G) \<and>
     (\<forall>a < length (frames G). frame_ok G a) \<and>
     (\<forall>c a. pendingRequests G c = Some a \<longrightarrow> a < length (frames G) \<and> rid G a = c) \<and>
     (\<forall>p \<in> set (appended G). \<exists>c \<in> set (rids G). consentIdOf p = Some c)"

text \<open>An \<open>intercept\<close> step draws a request id that no earlier request has.\<close>

fun fresh_for :: "ConsentGate \<Rightarrow> gate_event \<Rightarrow> bool" where
  "fresh_for G (Intercept ev uid clock) = (uid \<notin> set (rids G))"
| "fresh_for G e = True"

section \<open>An instance of the runtime primitives\<close>

text \<open>
  The theorems below hold for every \<open>runtime\<close>. To apply them to concrete data some
  instance is needed; this one is small enough to evaluate. It renders JSON without
  escaping, and its digests depend on the length of the input only; it is not SHA-256,
  and nothing is derived from it except evaluations at concrete ledgers.
\<close>

fun sample_stringify :: "json \<Rightarrow> string" where
  "sample_stringify JNull = ''null''"
| "sample_stringify (JBool b) = (if b then ''true'' else ''false'')"
| "sample_stringify (JNum i) = (if i < 0 then ''-'' else []) @ show_nat (nat \<bar>i\<bar>)"
| "sample_stringify (JStr s) = ''<'' @ s @ ''>''"
| "sample_stringify (JArr xs) = ''['' @ concat (map (\<lambda>x. sample_stringify x @ '','') xs) @ '']''"
| "sample_stringify (JObj kvs) =
     ''{'' @ concat (map (\<lambda>kv. fst kv @ '':'' @ sample_stringify (snd kv) @ '','') kvs) @ ''}''"

definition sample_fold :: "nat \<Rightarrow> string \<Rightarrow> 256 word" where
  "sample_fold seed s = word_of_nat (seed + length s)"

definition sample_runtime :: runtime where
  "sample_runtime =
     \<lparr> sha256 = sample_fold 7,
       hmac_sha256 = (\<lambda>key. sample_fold (length key)),
       stringify = sample_stringify \<rparr>"

definition sample_config :: "int \<Rightarrow> AuditLedgerConfig" where
  "sample_config k =
     \<lparr> enabled = True, localPath = ''ledger.json'', forwardToGateway = False, maxEntries = k \<rparr>"

definition sample_params :: "string \<Rightarrow> AppendParams" where
  "sample_params a =
     \<lparr> p_action = a, p_toolName = None, p_riskLevel = low, p_consentRequired = False,
       p_consentGranted = None, p_dataTokenized = False, p_injectionDetected = False,
       p_metadata = None \<rparr>"

definition sample_env :: "string \<Rightarrow> bool \<Rightarrow> AppendEnv" where
  "sample_env u ok = \<lparr> uuid = u, now = ''t0'', saveTime = ''t1'', writeOk = ok \<rparr>"

definition sample_call :: "string \<Rightarrow> AppendEnv \<times> AppendParams" where
  "sample_call a = (sample_env (''id-'' @ a) True, sample_params a)"

definition sample_fresh :: "int \<Rightarrow> AuditLedger" where
  "sample_fresh k = newLedger (sample_config k) None None [1, 2, 3, 4]"

definition sample_ledger :: "int \<Rightarrow> (AppendEnv \<times> AppendParams) list \<Rightarrow> AuditLedger" where
  "sample_ledger k calls = snd (appends sample_runtime calls (sample_fresh k))"

definition sample_gate_config :: "string list \<Rightarrow> string list \<Rightarrow> RiskLevel \<Rightarrow> ConsentGateConfig" where
  "sample_gate_config always never threshold =
     \<lparr> gate_enabled = True, alwaysRequire = always, neverRequire = never,
       timeoutMs = 2000, riskThreshold = threshold \<rparr>"

definition sample_event :: ToolCallEvent where
  "sample_event = \<lparr> ev_toolName = ''exec'', args = [], sessionId = ''test'', ev_timestamp = ''t0'' \<rparr>"

text \<open>A request is registered; then it is approved, before its timer fires.\<close>

definition sample_registered :: ConsentGate where
  "sample_registered =
     run_gate [Intercept sample_event ''req-1'' ''t0'', SendDone 0]
       (newGate (sample_gate_config [] [] high))"

definition sample_approved :: ConsentGate where
  "sample_approved =
     run_gate [Intercept sample_event ''req-1'' ''t0'', SendDone 0, Response ''req-1'' True]
       (newGate (sample_gate_config [] [] high))"

definition sample_raced :: ConsentGate where
  "sample_raced =
     run_gate [TimerFired 0, Response ''req-1'' False, Resume 0 ''t1'' True] sample_approved"


section \<open>Properties of the ledger\<close>


lemma length_hex_of: "length (hex_of n v) = n"
  by (induction n arbitrary: v) auto

lemma length_digest_hex: "length (digest_hex w) = 64"
  by (simp add: digest_hex_def length_hex_of)

lemma hex_digit_inj: "a < 16 \<Longrightarrow> b < 16 \<Longrightarrow> hex_digit a = hex_digit b \<Longrightarrow> a = b"
proof -
  assume a: "a < 16" and b: "b < 16" and e: "hex_digit a = hex_digit b"
  have d: "distinct ''0123456789abcdef''" by simp
  have "a < length ''0123456789abcdef''" "b < length ''0123456789abcdef''" using a b by simp_all
  with d e show "a = b" unfolding hex_digit_def using nth_eq_iff_index_eq by blast
qed

lemma hex_of_inj: "hex_of n a = hex_of n b \<Longrightarrow> a mod 16 ^ n = b mod 16 ^ n"
proof (induction n arbitrary: a b)
  case 0 then show ?case by simp
next
  case (Suc n)
  from Suc.prems have t: "hex_of n (a div 16) = hex_of n (b div 16)"
    and h: "hex_digit (a mod 16) = hex_digit (b mod 16)" by simp_all
  from h have m: "a mod 16 = b mod 16" by (intro hex_digit_inj) simp_all
  from Suc.IH[OF t] have d: "(a div 16) mod 16 ^ n = (b div 16) mod 16 ^ n" .
  have "a mod 16 ^ Suc n = 16 * ((a div 16) mod 16 ^ n) + a mod 16"
    by (simp add: mod_mult2_eq)
  moreover have "b mod 16 ^ Suc n = 16 * ((b div 16) mod 16 ^ n) + b mod 16"
    by (simp add: mod_mult2_eq)
  ultimately show ?case using m d by simp
qed

lemma digest_hex_inj: "digest_hex a = digest_hex b \<longleftrightarrow> a = b"
proof
  assume "digest_hex a = digest_hex b"
  then have "unat a mod 16 ^ 64 = unat b mod 16 ^ 64"
    unfolding digest_hex_def by (rule hex_of_inj)
  moreover have "(16::nat) ^ 64 = 2 ^ LENGTH(256)" by simp
  moreover have "unat a < 2 ^ LENGTH(256)" "unat b < 2 ^ LENGTH(256)" by (rule unsigned_less)+
  ultimately have "unat a = unat b" by simp
  then show "a = b" by (simp add: word_unat_eq_iff)
qed simp

lemma hex_of_zero: "hex_of n 0 = replicate n CHR ''0''"
  by (induction n) (auto simp: hex_digit_def replicate_append_same)

lemma genesis_is_zero_digest: "GENESIS_HASH = digest_hex 0"
  by (simp add: GENESIS_HASH_def digest_hex_def hex_of_zero eval_nat_numeral)


lemma contentForHash_hash [simp]: "contentForHash R (e\<lparr>hash := h\<rparr>) = contentForHash R e"
  by (simp add: contentForHash_def)

lemma contentForHash_signature [simp]: "contentForHash R (e\<lparr>signature := s\<rparr>) = contentForHash R e"
  by (simp add: contentForHash_def)

lemma contentForHash_prevHash [simp]: "contentForHash R (e\<lparr>prevHash := h\<rparr>) = contentForHash R e"
  by (simp add: contentForHash_def)

lemma sigPayload_signature [simp]: "sigPayload (e\<lparr>signature := s\<rparr>) = sigPayload e"
  by (simp add: sigPayload_def)

lemma newEntry_fields:
  "prevHash (newEntry R env p L n) = lastHash L"
  "sequence (newEntry R env p L n) = n"
  "entryId (newEntry R env p L n) = uuid env"
  "action (newEntry R env p L n) = p_action p"
  by (simp_all add: newEntry_def Let_def)

lemma newEntry_hash: "hash (newEntry R env p L n) = computeHash R (newEntry R env p L n)"
  by (simp add: newEntry_def Let_def computeHash_def contentForHash_def)

lemma newEntry_signature:
  "signature (newEntry R env p L n) = computeSignature R (secret L) (newEntry R env p L n)"
  by (simp add: newEntry_def Let_def computeSignature_def sigPayload_def)

lemma linked_snoc:
  "linked R key expected (es @ [e]) \<longleftrightarrow>
     linked R key expected es \<and> prevHash e = tip expected es \<and> hash e = computeHash R e \<and>
     signature e = computeSignature R key e"
  by (induction es arbitrary: expected) (auto simp: tip_def)

lemma verify_loop_linked:
  "linked R key expected es \<Longrightarrow> verify_loop R key n expected es = intact n"
  by (induction es arbitrary: expected) auto

lemma valid_broken [simp]: "valid (broken n e why) = False"
  by (simp add: broken_def)

lemma valid_intact [simp]: "valid (intact n) = True"
  by (simp add: intact_def)

lemma totalEntries_broken [simp]: "totalEntries (broken n e why) = n"
  by (simp add: broken_def)

lemma totalEntries_intact [simp]: "totalEntries (intact n) = n"
  by (simp add: intact_def)

lemma valid_verify_loop: "valid (verify_loop R key n expected es) \<longleftrightarrow> linked R key expected es"
  by (induction es arbitrary: expected) auto

lemma totalEntries_verify_loop: "totalEntries (verify_loop R key n expected es) = n"
  by (induction es arbitrary: expected) auto

lemma valid_verify: "valid (verify R L) \<longleftrightarrow> linked R (secret L) GENESIS_HASH (entries L)"
  by (cases "entries L = []") (simp_all add: verify_def valid_verify_loop)

lemma totalEntries_verify: "totalEntries (verify R L) = length (entries L)"
  by (simp add: verify_def totalEntries_verify_loop)

lemma verify_loop_append:
  "linked R key expected pre \<Longrightarrow>
   verify_loop R key n expected (pre @ es) = verify_loop R key n (tip expected pre) es"
  by (induction pre arbitrary: expected) (auto simp: tip_def)

text \<open>The in-memory effect of one \<open>append\<close> call does not depend on the write.\<close>

lemma ledger_append_state:
  "entries (snd (ledger_append R env p L)) =
     entries (trim (L\<lparr> counter := counter L + 1,
                        lastHash := hash (newEntry R env p L (counter L + 1)),
                        entries := entries L @ [newEntry R env p L (counter L + 1)] \<rparr>))"
  "lastHash (snd (ledger_append R env p L)) = hash (newEntry R env p L (counter L + 1))"
  "counter (snd (ledger_append R env p L)) = counter L + 1"
  "secret (snd (ledger_append R env p L)) = secret L"
  "config (snd (ledger_append R env p L)) = config L"
  by (simp_all add: ledger_append_def Let_def saveChain_def forward_def trim_def split: sum.splits)


lemma trim_entries:
  "entries (trim L) =
     (if 0 < maxEntries (config L)
      then drop (length (entries L) - nat (maxEntries (config L))) (entries L)
      else entries L)"
proof (cases "0 < maxEntries (config L) \<and> int (length (entries L)) > maxEntries (config L)")
  case True
  then have "nat (int (length (entries L)) - maxEntries (config L)) =
             length (entries L) - nat (maxEntries (config L))" by linarith
  with True show ?thesis by (simp add: trim_def slice_from_def Let_def max_def)
next
  case False
  then show ?thesis by (auto simp: trim_def)
qed

lemma trim_other [simp]:
  "counter (trim L) = counter L" "lastHash (trim L) = lastHash L"
  "secret (trim L) = secret L" "config (trim L) = config L"
  by (simp_all add: trim_def)

lemma drop_window_snoc:
  assumes "0 < k"
  shows "drop (length (drop (length xs - k) xs @ [e]) - k) (drop (length xs - k) xs @ [e]) =
         drop (length (xs @ [e]) - k) (xs @ [e])"
proof (cases "length xs < k")
  case True
  then show ?thesis by simp
next
  case False
  then have l: "length (drop (length xs - k) xs) = k" by simp
  have "drop (Suc k - k) (drop (length xs - k) xs @ [e]) = drop 1 (drop (length xs - k) xs) @ [e]"
    using assms l by (cases "drop (length xs - k) xs") simp_all
  also have "\<dots> = drop (Suc (length xs) - k) xs @ [e]"
    using False by (simp add: Suc_diff_le)
  also have "\<dots> = drop (Suc (length xs) - k) (xs @ [e])"
    using assms by simp
  finally show ?thesis using l by simp
qed

lemma ledger_append_untrimmed:
  assumes "maxEntries (config U) \<le> 0"
  shows "entries (snd (ledger_append R env p U)) = entries U @ [newEntry R env p U (counter U + 1)]"
  using assms by (simp add: ledger_append_state trim_entries)

lemma retained_of_step:
  assumes "retained_of L U"
  shows "retained_of (snd (ledger_append R env p L)) (snd (ledger_append R env p U))"
proof -
  from assms have c: "counter L = counter U" and h: "lastHash L = lastHash U"
    and s: "secret L = secret U" and m: "maxEntries (config U) \<le> 0"
    and e: "entries L = (if 0 < maxEntries (config L)
              then drop (length (entries U) - nat (maxEntries (config L))) (entries U)
              else entries U)"
    by (simp_all add: retained_of_def)
  have n: "newEntry R env p L (counter L + 1) = newEntry R env p U (counter U + 1)"
    using c h s by (simp add: newEntry_def Let_def)
  have e0: "entries (snd (ledger_append R env p U)) = entries U @ [newEntry R env p U (counter U + 1)]"
    using m by (rule ledger_append_untrimmed)
  show ?thesis
  proof (cases "0 < maxEntries (config L)")
    case True
    then have k: "0 < nat (maxEntries (config L))" by simp
    show ?thesis
      unfolding retained_of_def
      using True c h s m e n e0 drop_window_snoc[OF k, of "entries U"]
      by (simp add: ledger_append_state trim_entries)
  next
    case False
    then show ?thesis
      unfolding retained_of_def
      using c h s m e n e0 by (simp add: ledger_append_state trim_entries)
  qed
qed


lemma retained_of_appends:
  "retained_of L U \<Longrightarrow> retained_of (snd (appends R calls L)) (snd (appends R calls U))"
proof (induction calls arbitrary: L U)
  case Nil
  then show ?case by simp
next
  case (Cons c cs)
  from retained_of_step[OF Cons.prems]
  have "retained_of (snd (ledger_append R (fst c) (snd c) L)) (snd (ledger_append R (fst c) (snd c) U))" .
  from Cons.IH[OF this] show ?case by (simp add: split_beta)
qed

lemma honest_step:
  assumes "honest R U" and "maxEntries (config U) \<le> 0"
  shows "honest R (snd (ledger_append R env p U))"
proof -
  let ?e = "newEntry R env p U (counter U + 1)"
  have e: "entries (snd (ledger_append R env p U)) = entries U @ [?e]"
    using assms(2) by (rule ledger_append_untrimmed)
  have "linked R (secret U) GENESIS_HASH (entries U @ [?e])"
    using assms(1) newEntry_hash[of R env p U] newEntry_signature[of R env p U]
    by (simp add: honest_def linked_snoc newEntry_fields)
  then show ?thesis
    unfolding honest_def e by (simp add: ledger_append_state(2-5) tip_def)
qed

lemma untrimmed_appends:
  assumes "maxEntries (config U) \<le> 0"
  shows "maxEntries (config (snd (appends R calls U))) \<le> 0 \<and>
         length (entries (snd (appends R calls U))) = length (entries U) + length calls \<and>
         counter (snd (appends R calls U)) = counter U + length calls \<and>
         secret (snd (appends R calls U)) = secret U \<and>
         (honest R U \<longrightarrow> honest R (snd (appends R calls U)))"
  using assms
proof (induction calls arbitrary: U)
  case Nil
  then show ?case by simp
next
  case (Cons c cs)
  let ?L = "snd (ledger_append R (fst c) (snd c) U)"
  have m: "maxEntries (config ?L) \<le> 0" using Cons.prems by (simp add: ledger_append_state)
  have a: "snd (appends R (c # cs) U) = snd (appends R cs ?L)" by (simp add: split_beta)
  have e: "length (entries ?L) = Suc (length (entries U))"
    using Cons.prems by (simp add: ledger_append_untrimmed)
  show ?case
    unfolding a using Cons.IH[OF m] Cons.prems honest_step[of R U "fst c" "snd c"] e
    by (simp add: ledger_append_state(2-5))
qed

lemma honest_newLedger: "honest R (newLedger cfg url gkey sec)"
  by (simp add: honest_def newLedger_def tip_def)

lemma retained_of_newLedger:
  "retained_of (newLedger cfg url gkey sec) (newLedger (cfg\<lparr>maxEntries := 0\<rparr>) url gkey sec)"
  by (simp add: retained_of_def newLedger_def)



lemma config_appends [simp]: "config (snd (appends R calls L)) = config L"
  by (induction calls arbitrary: L) (simp_all add: split_beta ledger_append_state)

lemma secret_appends [simp]: "secret (snd (appends R calls L)) = secret L"
  by (induction calls arbitrary: L) (simp_all add: split_beta ledger_append_state)

lemma counter_appends [simp]: "counter (snd (appends R calls L)) = counter L + length calls"
  by (induction calls arbitrary: L) (simp_all add: split_beta ledger_append_state)

lemma length_appends [simp]: "length (fst (appends R calls L)) = length calls"
  by (induction calls arbitrary: L) (simp_all add: split_beta)

lemma newLedger_fields [simp]:
  "entries (newLedger cfg url gkey sec) = []"
  "secret (newLedger cfg url gkey sec) = sec"
  "lastHash (newLedger cfg url gkey sec) = GENESIS_HASH"
  "counter (newLedger cfg url gkey sec) = 0"
  "config (newLedger cfg url gkey sec) = cfg"
  by (simp_all add: newLedger_def)

text \<open>The retained entries of a fresh ledger after a run, against the run without a limit.\<close>

lemma fresh_run:
  fixes cfg url gkey sec R calls
  defines "L \<equiv> snd (appends R calls (newLedger cfg url gkey sec))"
    and "U \<equiv> snd (appends R calls (newLedger (cfg\<lparr>maxEntries := 0\<rparr>) url gkey sec))"
  shows "length (entries U) = length calls"
    and "honest R U"
    and "secret U = secret L" and "lastHash L = lastHash U" and "counter L = counter U"
    and "entries L = (if 0 < maxEntries cfg
           then drop (length calls - nat (maxEntries cfg)) (entries U) else entries U)"
proof -
  have m: "maxEntries (config (newLedger (cfg\<lparr>maxEntries := 0\<rparr>) url gkey sec)) \<le> 0" by simp
  from untrimmed_appends[OF m, of R calls] honest_newLedger[of R]
  show len: "length (entries U) = length calls" and "honest R U"
    by (simp_all add: U_def)
  show "secret U = secret L" by (simp add: L_def U_def)
  have r: "retained_of L U"
    unfolding L_def U_def by (intro retained_of_appends retained_of_newLedger)
  then show "lastHash L = lastHash U" "counter L = counter U"
    by (simp_all add: retained_of_def)
  have "config L = cfg" by (simp add: L_def)
  with r len show "entries L = (if 0 < maxEntries cfg
           then drop (length calls - nat (maxEntries cfg)) (entries U) else entries U)"
    by (simp add: retained_of_def)
qed

lemma ledger_append_result:
  "fst (ledger_append R env p L) =
     (if writeOk env then Inr (newEntry R env p L (counter L + 1)) else Inl WriteFailed)"
  by (simp add: ledger_append_def Let_def saveChain_def)

lemma appends_results:
  "map (map_sum id sequence) (fst (appends R calls L)) =
     map (\<lambda>ic. if writeOk (fst (snd ic)) then Inr (Suc (fst ic)) else Inl WriteFailed)
         (enumerate (counter L) calls)"
proof (induction calls arbitrary: L)
  case Nil
  then show ?case by simp
next
  case (Cons c cs)
  show ?case
    using Cons.IH[of "snd (ledger_append R (fst c) (snd c) L)"]
    by (simp add: split_beta ledger_append_result ledger_append_state(3) newEntry_fields)
qed

lemma untrimmed_actions:
  assumes "maxEntries (config U) \<le> 0"
  shows "map action (entries (snd (appends R calls U))) =
           map action (entries U) @ map (\<lambda>c. p_action (snd c)) calls"
  using assms
proof (induction calls arbitrary: U)
  case Nil
  show ?case by simp
next
  case (Cons c cs)
  let ?L = "snd (ledger_append R (fst c) (snd c) U)"
  have m: "maxEntries (config ?L) \<le> 0" using Cons.prems by (simp add: ledger_append_state)
  have e: "entries ?L = entries U @ [newEntry R (fst c) (snd c) U (counter U + 1)]"
    using Cons.prems by (rule ledger_append_untrimmed)
  show ?case using Cons.IH[OF m] e by (simp add: split_beta newEntry_fields)
qed

lemma untrimmed_sequences:
  assumes "maxEntries (config U) \<le> 0"
  shows "map sequence (entries (snd (appends R calls U))) =
           map sequence (entries U) @ [Suc (counter U) ..< Suc (counter U + length calls)]"
  using assms
proof (induction calls arbitrary: U)
  case Nil
  show ?case by simp
next
  case (Cons c cs)
  let ?L = "snd (ledger_append R (fst c) (snd c) U)"
  have m: "maxEntries (config ?L) \<le> 0" using Cons.prems by (simp add: ledger_append_state)
  have e: "entries ?L = entries U @ [newEntry R (fst c) (snd c) U (counter U + 1)]"
    using Cons.prems by (rule ledger_append_untrimmed)
  have k: "counter ?L = Suc (counter U)" by (simp add: ledger_append_state)
  show ?case using Cons.IH[OF m] e k
    by (simp add: split_beta newEntry_fields upt_conv_Cons del: upt_Suc)
qed

lemma linked_append:
  "linked R key expected (xs @ ys) \<longleftrightarrow>
     linked R key expected xs \<and> linked R key (tip expected xs) ys"
  by (induction xs arbitrary: expected) (auto simp: tip_def)

lemma tip_take:
  "i < length es \<Longrightarrow> tip expected (take i es) = (if i = 0 then expected else hash (es ! (i - 1)))"
  by (cases i) (simp_all add: tip_def take_Suc_conv_app_nth)

lemma fresh_length:
  "length (entries (snd (appends R calls (newLedger cfg url gkey sec)))) =
     (if 0 < maxEntries cfg then min (length calls) (nat (maxEntries cfg)) else length calls)"
proof -
  let ?L = "snd (appends R calls (newLedger cfg url gkey sec))"
  let ?U = "snd (appends R calls (newLedger (cfg\<lparr>maxEntries := 0\<rparr>) url gkey sec))"
  note f = fresh_run[of R calls cfg url gkey sec]
  show ?thesis
  proof (cases "0 < maxEntries cfg")
    case True
    with f(6) have "length (entries ?L) = length (entries ?U) - (length calls - nat (maxEntries cfg))"
      by simp
    with f(1) True show ?thesis by (simp add: min_def)
  next
    case False
    with f(6) f(1) show ?thesis by simp
  qed
qed

lemma fresh_valid:
  assumes "maxEntries cfg \<le> 0 \<or> int (length calls) \<le> maxEntries cfg"
  shows "valid (verify R (snd (appends R calls (newLedger cfg url gkey sec))))"
proof -
  let ?L = "snd (appends R calls (newLedger cfg url gkey sec))"
  let ?U = "snd (appends R calls (newLedger (cfg\<lparr>maxEntries := 0\<rparr>) url gkey sec))"
  note f = fresh_run[of R calls cfg url gkey sec]
  from assms f(6) have "entries ?L = entries ?U" by auto
  with f(2) f(3) show ?thesis by (simp add: valid_verify honest_def)
qed

lemma sample_ledger_length:
  "length (entries (sample_ledger k calls)) =
     (if 0 < k then min (length calls) (nat k) else length calls)"
  using fresh_length[of sample_runtime calls "sample_config k" None None "[1, 2, 3, 4]"]
  by (simp add: sample_ledger_def sample_fresh_def sample_config_def)

lemma sample_ledger_valid:
  "k \<le> 0 \<or> int (length calls) \<le> k \<Longrightarrow> valid (verify sample_runtime (sample_ledger k calls))"
  using fresh_valid[of "sample_config k" calls sample_runtime None None "[1, 2, 3, 4]"]
  by (simp add: sample_ledger_def sample_fresh_def sample_config_def)

text \<open>
  After trimming, the oldest retained entry still points at the entry evicted before
  it, while \<open>verify\<close> starts from the genesis sentinel.
\<close>

lemma linked_nth:
  "linked R key x es \<Longrightarrow> i < length es \<Longrightarrow>
   prevHash (es ! i) = (if i = 0 then x else hash (es ! (i - 1)))"
proof (induction es arbitrary: x i)
  case Nil
  then show ?case by simp
next
  case (Cons e es)
  show ?case
  proof (cases i)
    case 0
    with Cons.prems show ?thesis by simp
  next
    case (Suc j)
    have l: "linked R key (hash e) es" and jl: "j < length es"
      using Cons.prems Suc by auto
    from Cons.IH[OF l jl] show ?thesis using Suc by (cases j) simp_all
  qed
qed

lemma oldest_retained_points_at_evicted:
  assumes "0 < maxEntries cfg" and "maxEntries cfg < int (length calls)"
  shows "prevHash (hd (entries (snd (appends R calls (newLedger cfg url gkey sec))))) =
         hash (entries (snd (appends R calls (newLedger (cfg\<lparr>maxEntries := 0\<rparr>) url gkey sec)))
                 ! (length calls - nat (maxEntries cfg) - 1))"
proof -
  let ?L = "snd (appends R calls (newLedger cfg url gkey sec))"
  let ?U = "snd (appends R calls (newLedger (cfg\<lparr>maxEntries := 0\<rparr>) url gkey sec))"
  let ?d = "length calls - nat (maxEntries cfg)"
  note f = fresh_run[of R calls cfg url gkey sec]
  have d: "0 < ?d" "?d < length (entries ?U)" using assms f(1) by simp_all
  have "entries ?L = drop ?d (entries ?U)" using f(6) assms(1) by simp
  then have "hd (entries ?L) = entries ?U ! ?d" using d by (simp add: hd_drop_conv_nth)
  moreover have "prevHash (entries ?U ! ?d) = hash (entries ?U ! (?d - 1))"
    using linked_nth[of R "secret ?U" GENESIS_HASH "entries ?U" ?d] f(2) d
    by (simp add: honest_def)
  ultimately show ?thesis by simp
qed

lemma verify_breaks_at_head:
  assumes "entries L \<noteq> []" and "prevHash (hd (entries L)) \<noteq> GENESIS_HASH"
  shows "verify R L =
         broken (length (entries L)) (hd (entries L)) ''prevHash mismatch at sequence ''"
  using assms by (cases "entries L") (simp_all add: verify_def)

lemma sample_trimmed_entries:
  "entries (sample_ledger 1 [sample_call ''test1'', sample_call ''test2'']) =
     [newEntry sample_runtime (sample_env ''id-test2'' True) (sample_params ''test2'')
        (snd (ledger_append sample_runtime (sample_env ''id-test1'' True) (sample_params ''test1'')
               (sample_fresh 1))) 2]"
  by (simp add: sample_ledger_def sample_call_def split_beta ledger_append_state trim_entries
        sample_fresh_def sample_config_def numeral_2_eq_2)

lemma sample_first_hash:
  "lastHash (snd (ledger_append sample_runtime (sample_env ''id-test1'' True)
       (sample_params ''test1'') (sample_fresh 1))) \<noteq> GENESIS_HASH"
  by (simp add: ledger_append_state(2) genesis_is_zero_digest digest_hex_inj newEntry_def Let_def
        computeHash_def contentForHash_def sample_runtime_def sample_env_def sample_params_def
        sample_fold_def sample_fresh_def show_nat.simps)

text \<open>The result of \<open>verify\<close> is decided at the first entry after a prefix that passes.\<close>

lemma verify_first_failure:
  assumes "entries T = pre @ d # post" and "linked R (secret T) GENESIS_HASH pre"
  shows "verify R T =
     (if prevHash d \<noteq> tip GENESIS_HASH pre
        then broken (length (entries T)) d ''prevHash mismatch at sequence ''
      else if hash d \<noteq> computeHash R d
        then broken (length (entries T)) d ''Content hash mismatch at sequence ''
      else if signature d \<noteq> computeSignature R (secret T) d
        then broken (length (entries T)) d ''Signature mismatch at sequence ''
      else verify_loop R (secret T) (length (entries T)) (hash d) post)"
proof -
  have "verify R T = verify_loop R (secret T) (length (entries T)) GENESIS_HASH (pre @ d # post)"
    using assms(1) by (simp add: verify_def)
  also have "\<dots> = verify_loop R (secret T) (length (entries T)) (tip GENESIS_HASH pre) (d # post)"
    using verify_loop_append[OF assms(2)] by simp
  finally show ?thesis by simp
qed

lemma valid_prefix:
  "valid (verify R (T\<lparr>entries := pre\<rparr>)) \<longleftrightarrow> linked R (secret T) GENESIS_HASH pre"
  by (simp add: valid_verify)

section \<open>Claims about the ledger\<close>

subsection \<open>Verification of an untampered chain\<close>

text \<open>
  Claim C1, as amended. After any sequence of \<open>N\<close> calls of \<open>append\<close> on a fresh ledger,
  \<open>verify\<close> reports as \<open>totalEntries\<close> the number of retained entries, which is \<open>N\<close>
  when no limit is configured and \<open>min N maxEntries\<close> otherwise; and whenever no entry
  has been trimmed (no limit, or \<open>N\<close> within it) the result is valid with
  \<open>totalEntries = N\<close>, the empty chain included. Whether a write failed plays no role.
\<close>

theorem verify_untampered:
  "let L = snd (appends R calls (newLedger cfg url gkey sec));
       K = maxEntries cfg; N = length calls
   in totalEntries (verify R L) = length (entries L) \<and>
      length (entries L) = (if 0 < K then min N (nat K) else N) \<and>
      (K \<le> 0 \<or> int N \<le> K \<longrightarrow> valid (verify R L) \<and> totalEntries (verify R L) = N)"
proof -
  let ?L = "snd (appends R calls (newLedger cfg url gkey sec))"
  have len: "length (entries ?L) =
      (if 0 < maxEntries cfg then min (length calls) (nat (maxEntries cfg)) else length calls)"
    by (rule fresh_length)
  have v: "valid (verify R ?L)" if "maxEntries cfg \<le> 0 \<or> int (length calls) \<le> maxEntries cfg"
    using that by (rule fresh_valid)
  show ?thesis
    unfolding Let_def using len v by (auto simp: totalEntries_verify)
qed

theorem verify_untampered_witness:
  "valid (verify sample_runtime (sample_ledger 100 [sample_call ''test1'', sample_call ''test2''])) \<and>
   totalEntries (verify sample_runtime (sample_ledger 100 [sample_call ''test1'', sample_call ''test2''])) = 2"
proof -
  let ?calls = "[sample_call ''test1'', sample_call ''test2'']"
  have h: "maxEntries (sample_config 100) \<le> 0 \<or> int (length ?calls) \<le> maxEntries (sample_config 100)"
    by (simp add: sample_config_def)
  have n: "length ?calls = 2" by simp
  show ?thesis
    using verify_untampered[of sample_runtime ?calls "sample_config 100" None None "[1, 2, 3, 4]"] h
    unfolding Let_def sample_ledger_def sample_fresh_def n by blast
qed

text \<open>
  The claim as written fails once the limit has trimmed. With \<open>maxEntries = 1\<close> and two
  appends one entry is retained: \<open>totalEntries\<close> is 1, not 2, and the walk, which starts
  from the genesis sentinel, stops at the retained entry, whose \<open>prevHash\<close> is the hash
  of the evicted one.
\<close>

theorem verify_untampered_counterexample:
  "verify sample_runtime (sample_ledger 1 [sample_call ''test1'', sample_call ''test2'']) =
     \<lparr> valid = False, totalEntries = 1, brokenAtSequence = Some 2,
       brokenAtId = Some ''id-test2'',
       reason = Some ''prevHash mismatch at sequence 2'' \<rparr> \<and>
   \<not> (valid (verify sample_runtime (sample_ledger 1 [sample_call ''test1'', sample_call ''test2''])) \<and>
      totalEntries (verify sample_runtime (sample_ledger 1 [sample_call ''test1'', sample_call ''test2''])) = 2)"
  using sample_first_hash
  by (simp add: verify_def sample_trimmed_entries newEntry_fields broken_def sample_env_def
        show_nat.simps)

subsection \<open>Order of the checks and the first failure\<close>

text \<open>
  Claim C2. Whenever the entries before some entry \<open>d\<close> of a ledger pass verification,
  the walk reaches \<open>d\<close> with the genesis sentinel (if \<open>d\<close> is the first entry) or the hash
  of the entry before it as the expected previous hash, and there the checks run in
  the order linkage, content digest, signature: the first that fails gives the result,
  with \<open>valid = False\<close>, the sequence and id of \<open>d\<close> and the matching reason; if none
  fails the walk goes on behind \<open>d\<close>. In particular, in a chain that verified, an entry
  whose \<open>action\<close> was changed, so that its recomputed digest differs from the stored
  hash, is reported as a content mismatch, and an entry whose \<open>prevHash\<close> was changed
  as a linkage break, whatever its signature check would say.
\<close>

theorem verify_reports_first_failure:
  "(entries T = pre @ d # post \<and> valid (verify R (T\<lparr>entries := pre\<rparr>)) \<longrightarrow>
      verify R T =
        (let n = length (entries T);
             expected = (if pre = [] then GENESIS_HASH else hash (last pre))
         in if prevHash d \<noteq> expected
              then broken n d ''prevHash mismatch at sequence ''
            else if hash d \<noteq> computeHash R d
              then broken n d ''Content hash mismatch at sequence ''
            else if signature d \<noteq> computeSignature R (secret T) d
              then broken n d ''Signature mismatch at sequence ''
            else verify_loop R (secret T) n (hash d) post)) \<and>
   (valid (verify R L) \<and> i < length (entries L) \<longrightarrow>
      (let es = entries L; e = es ! i; n = length es
       in prevHash e = (if i = 0 then GENESIS_HASH else hash (es ! (i - 1))) \<and>
          hash e = computeHash R e \<and>
          (computeHash R (e\<lparr>action := a\<rparr>) \<noteq> hash e \<longrightarrow>
             verify R (replaceEntry i (e\<lparr>action := a\<rparr>) L) =
               \<lparr> valid = False, totalEntries = n, brokenAtSequence = Some (sequence e),
                 brokenAtId = Some (entryId e),
                 reason = Some (''Content hash mismatch at sequence '' @ show_nat (sequence e)) \<rparr>) \<and>
          (h \<noteq> prevHash e \<longrightarrow>
             verify R (replaceEntry i (e\<lparr>prevHash := h\<rparr>) L) =
               \<lparr> valid = False, totalEntries = n, brokenAtSequence = Some (sequence e),
                 brokenAtId = Some (entryId e),
                 reason = Some (''prevHash mismatch at sequence '' @ show_nat (sequence e)) \<rparr>)))"
proof -
  have general: "verify R T =
        (let n = length (entries T);
             expected = (if pre = [] then GENESIS_HASH else hash (last pre))
         in if prevHash d \<noteq> expected
              then broken n d ''prevHash mismatch at sequence ''
            else if hash d \<noteq> computeHash R d
              then broken n d ''Content hash mismatch at sequence ''
            else if signature d \<noteq> computeSignature R (secret T) d
              then broken n d ''Signature mismatch at sequence ''
            else verify_loop R (secret T) n (hash d) post)"
    if "entries T = pre @ d # post" and "valid (verify R (T\<lparr>entries := pre\<rparr>))"
    using verify_first_failure[OF that(1), of R] that(2)
    unfolding valid_prefix Let_def tip_def by simp
  have tampered: "let es = entries L; e = es ! i; n = length es
       in prevHash e = (if i = 0 then GENESIS_HASH else hash (es ! (i - 1))) \<and>
          hash e = computeHash R e \<and>
          (computeHash R (e\<lparr>action := a\<rparr>) \<noteq> hash e \<longrightarrow>
             verify R (replaceEntry i (e\<lparr>action := a\<rparr>) L) =
               \<lparr> valid = False, totalEntries = n, brokenAtSequence = Some (sequence e),
                 brokenAtId = Some (entryId e),
                 reason = Some (''Content hash mismatch at sequence '' @ show_nat (sequence e)) \<rparr>) \<and>
          (h \<noteq> prevHash e \<longrightarrow>
             verify R (replaceEntry i (e\<lparr>prevHash := h\<rparr>) L) =
               \<lparr> valid = False, totalEntries = n, brokenAtSequence = Some (sequence e),
                 brokenAtId = Some (entryId e),
                 reason = Some (''prevHash mismatch at sequence '' @ show_nat (sequence e)) \<rparr>)"
    if ok: "valid (verify R L)" and i: "i < length (entries L)"
  proof -
    let ?es = "entries L" and ?key = "secret L"
    let ?e = "?es ! i" and ?n = "length ?es"
    let ?x = "if i = 0 then GENESIS_HASH else hash (?es ! (i - 1))"
    have split: "?es = take i ?es @ ?e # drop (Suc i) ?es"
      using i by (simp add: id_take_nth_drop[symmetric])
    have "linked R ?key GENESIS_HASH ?es" using ok by (simp add: valid_verify)
    then have "linked R ?key GENESIS_HASH (take i ?es @ ?e # drop (Suc i) ?es)"
      using split by simp
    then have "linked R ?key GENESIS_HASH (take i ?es) \<and>
        linked R ?key (tip GENESIS_HASH (take i ?es)) (?e # drop (Suc i) ?es)"
      by (simp only: linked_append)
    then have pre: "linked R ?key GENESIS_HASH (take i ?es)"
      and here: "linked R ?key (tip GENESIS_HASH (take i ?es)) (?e # drop (Suc i) ?es)"
      by blast+
    have t: "tip GENESIS_HASH (take i ?es) = ?x" using i by (rule tip_take)
    from here t have p: "prevHash ?e = ?x" and c: "hash ?e = computeHash R ?e" by simp_all
    have v: "verify R (replaceEntry i x L) =
        (if prevHash x \<noteq> ?x then broken ?n x ''prevHash mismatch at sequence ''
         else if hash x \<noteq> computeHash R x then broken ?n x ''Content hash mismatch at sequence ''
         else if signature x \<noteq> computeSignature R ?key x
           then broken ?n x ''Signature mismatch at sequence ''
         else verify_loop R ?key ?n (hash x) (drop (Suc i) ?es))" for x
    proof -
      have u: "entries (replaceEntry i x L) = take i ?es @ x # drop (Suc i) ?es"
        using i by (simp add: replaceEntry_def upd_conv_take_nth_drop)
      have k: "linked R (secret (replaceEntry i x L)) GENESIS_HASH (take i ?es)"
        using pre by (simp add: replaceEntry_def)
      show ?thesis
        using verify_first_failure[OF u k] t by (simp add: replaceEntry_def)
    qed
    have va: "verify R (replaceEntry i (?e\<lparr>action := a\<rparr>) L) =
                broken ?n (?e\<lparr>action := a\<rparr>) ''Content hash mismatch at sequence ''"
      if "computeHash R (?e\<lparr>action := a\<rparr>) \<noteq> hash ?e"
      using that p by (simp add: v)
    have vh: "verify R (replaceEntry i (?e\<lparr>prevHash := h\<rparr>) L) =
                broken ?n (?e\<lparr>prevHash := h\<rparr>) ''prevHash mismatch at sequence ''"
      if "h \<noteq> prevHash ?e"
      using that p by (simp add: v)
    show ?thesis
      unfolding Let_def using p c va vh by (simp add: broken_def)
  qed
  show ?thesis using general tampered by blast
qed

theorem verify_reports_first_failure_witness:
  "verify sample_runtime
     (replaceEntry 0
        ((entries (sample_ledger 0 [sample_call ''test1'', sample_call ''test2'']) ! 0)
           \<lparr>action := ''tampered''\<rparr>)
        (sample_ledger 0 [sample_call ''test1'', sample_call ''test2''])) =
   \<lparr> valid = False, totalEntries = 2, brokenAtSequence = Some 1,
     brokenAtId = Some ''id-test1'',
     reason = Some ''Content hash mismatch at sequence 1'' \<rparr> \<and>
   verify sample_runtime
     (replaceEntry 0
        ((entries (sample_ledger 0 [sample_call ''test1'', sample_call ''test2'']) ! 0)
           \<lparr>prevHash := ''ffff''\<rparr>)
        (sample_ledger 0 [sample_call ''test1'', sample_call ''test2''])) =
   \<lparr> valid = False, totalEntries = 2, brokenAtSequence = Some 1,
     brokenAtId = Some ''id-test1'',
     reason = Some ''prevHash mismatch at sequence 1'' \<rparr> \<and>
   verify sample_runtime
     (replaceEntry 0
        ((entries (sample_ledger 0 [sample_call ''test1'', sample_call ''test2'']) ! 0)
           \<lparr>signature := ''00''\<rparr>)
        (sample_ledger 0 [sample_call ''test1'', sample_call ''test2''])) =
   \<lparr> valid = False, totalEntries = 2, brokenAtSequence = Some 1,
     brokenAtId = Some ''id-test1'',
     reason = Some ''Signature mismatch at sequence 1'' \<rparr>"
proof -
  let ?L = "sample_ledger 0 [sample_call ''test1'', sample_call ''test2'']"
  let ?e = "newEntry sample_runtime (sample_env ''id-test1'' True) (sample_params ''test1'')
              (sample_fresh 0) (counter (sample_fresh 0) + 1)"
  let ?M = "snd (ledger_append sample_runtime (sample_env ''id-test1'' True)
              (sample_params ''test1'') (sample_fresh 0))"
  let ?T = "replaceEntry 0 (?e\<lparr>signature := ''00''\<rparr>) ?L"
  have v: "valid (verify sample_runtime ?L)" by (rule sample_ledger_valid) simp
  have n: "length (entries ?L) = 2" by (simp add: sample_ledger_length)
  then have i: "0 < length (entries ?L)" by simp
  have m0: "maxEntries (config (sample_fresh 0)) \<le> 0"
    by (simp add: sample_fresh_def sample_config_def)
  have a: "entries ?M = [?e]"
    using ledger_append_untrimmed[OF m0] by (simp add: sample_fresh_def)
  have m1: "maxEntries (config ?M) \<le> 0"
    using m0 by (simp add: ledger_append_state(5))
  have "entries ?L = entries (snd (ledger_append sample_runtime (sample_env ''id-test2'' True)
            (sample_params ''test2'') ?M))"
    by (simp add: sample_ledger_def sample_call_def split_beta)
  then have e: "entries ?L ! 0 = ?e"
    unfolding ledger_append_untrimmed[OF m1] a by simp
  have f: "sequence ?e = 1" "entryId ?e = ''id-test1''" "prevHash ?e = GENESIS_HASH"
    by (simp_all add: newEntry_fields sample_env_def sample_fresh_def)
  have d: "computeHash sample_runtime (?e\<lparr>action := ''tampered''\<rparr>) \<noteq> hash ?e"
    by (simp add: computeHash_def digest_hex_inj contentForHash_def newEntry_def
          Let_def sample_runtime_def sample_env_def sample_params_def sample_fold_def
          sample_fresh_def show_nat.simps)
  have g: "''ffff'' \<noteq> prevHash ?e"
    by (simp add: newEntry_fields sample_fresh_def GENESIS_HASH_def)
  have tampered:
    "verify sample_runtime (replaceEntry 0 (?e\<lparr>action := ''tampered''\<rparr>) ?L) =
       \<lparr> valid = False, totalEntries = 2, brokenAtSequence = Some 1,
         brokenAtId = Some ''id-test1'',
         reason = Some ''Content hash mismatch at sequence 1'' \<rparr> \<and>
     verify sample_runtime (replaceEntry 0 (?e\<lparr>prevHash := ''ffff''\<rparr>) ?L) =
       \<lparr> valid = False, totalEntries = 2, brokenAtSequence = Some 1,
         brokenAtId = Some ''id-test1'',
         reason = Some ''prevHash mismatch at sequence 1'' \<rparr>"
    using verify_reports_first_failure[of undefined undefined undefined undefined
            sample_runtime ?L 0 "''tampered''" "''ffff''"] v i d g
    unfolding Let_def n e f by (simp add: show_nat.simps)
  have u: "entries ?T = [] @ (?e\<lparr>signature := ''00''\<rparr>) # drop (Suc 0) (entries ?L)"
    using i by (simp add: replaceEntry_def upd_conv_take_nth_drop)
  have p: "valid (verify sample_runtime (?T\<lparr>entries := []\<rparr>))"
    by (simp add: verify_def)
  have s: "signature (?e\<lparr>signature := ''00''\<rparr>) \<noteq>
           computeSignature sample_runtime (secret ?T) (?e\<lparr>signature := ''00''\<rparr>)"
  proof
    assume "signature (?e\<lparr>signature := ''00''\<rparr>) =
            computeSignature sample_runtime (secret ?T) (?e\<lparr>signature := ''00''\<rparr>)"
    then have "length ''00'' = length (computeSignature sample_runtime (secret ?T)
                                        (?e\<lparr>signature := ''00''\<rparr>))" by simp
    then show False by (simp add: computeSignature_def length_digest_hex)
  qed
  have h: "hash (?e\<lparr>signature := ''00''\<rparr>) = computeHash sample_runtime (?e\<lparr>signature := ''00''\<rparr>)"
    using newEntry_hash[of sample_runtime "sample_env ''id-test1'' True" "sample_params ''test1''"
            "sample_fresh 0" "counter (sample_fresh 0) + 1"]
    by (simp add: computeHash_def)
  have signed:
    "verify sample_runtime ?T =
       \<lparr> valid = False, totalEntries = 2, brokenAtSequence = Some 1,
         brokenAtId = Some ''id-test1'',
         reason = Some ''Signature mismatch at sequence 1'' \<rparr>"
    using verify_reports_first_failure[of ?T "[]" "?e\<lparr>signature := ''00''\<rparr>"
            "drop (Suc 0) (entries ?L)" sample_runtime] u p s h f
    unfolding Let_def by (simp add: broken_def replaceEntry_def n show_nat.simps)
  show ?thesis
    using tampered signed unfolding e by blast
qed

subsection \<open>A failed write\<close>

text \<open>
  Claim C4, as amended. When the write of the chain file fails, the call of \<open>append\<close>
  fails: it throws, returns no entry, and nothing reaches the file or the gateway. The
  ledger in memory is not restored: it holds the new entry as its last one (after
  trimming), the hash of that entry as \<open>lastHash\<close>, and the incremented counter.
\<close>

theorem failed_write_keeps_entry:
  assumes "\<not> writeOk env"
  shows "let e = newEntry R env p L (counter L + 1); L' = snd (ledger_append R env p L)
         in fst (ledger_append R env p L) = Inl WriteFailed \<and>
            entries L' = entries (trim (L\<lparr> entries := entries L @ [e] \<rparr>)) \<and>
            entries L' \<noteq> [] \<and> last (entries L') = e \<and>
            lastHash L' = hash e \<and> counter L' = counter L + 1 \<and>
            chainFile L' = chainFile L \<and> forwarded L' = forwarded L"
proof -
  let ?e = "newEntry R env p L (counter L + 1)"
  let ?L' = "snd (ledger_append R env p L)"
  have r: "fst (ledger_append R env p L) = Inl WriteFailed"
    using assms by (simp add: ledger_append_result)
  have e: "entries ?L' = entries (trim (L\<lparr> entries := entries L @ [?e] \<rparr>))"
    by (simp add: ledger_append_state(1) trim_entries)
  have k: "entries ?L' = drop k (entries L @ [?e]) \<and> k \<le> length (entries L)" 
    if "k = (if 0 < maxEntries (config L) then Suc (length (entries L)) - nat (maxEntries (config L)) else 0)" for k
    using that by (auto simp: e trim_entries)
  then obtain k where d: "entries ?L' = drop k (entries L @ [?e])" and kl: "k \<le> length (entries L)"
    by blast
  from d kl have ne: "entries ?L' \<noteq> []" and la: "last (entries ?L') = ?e" by simp_all
  have f: "chainFile ?L' = chainFile L" "forwarded ?L' = forwarded L"
    using assms by (simp_all add: ledger_append_def Let_def saveChain_def trim_def)
  show ?thesis
    unfolding Let_def using r e ne la f by (simp add: ledger_append_state(2,3))
qed

theorem failed_write_keeps_entry_witness:
  "fst (ledger_append sample_runtime (sample_env ''id-1'' False) (sample_params ''tool_call'')
          (sample_fresh 100)) = Inl WriteFailed \<and>
   counter (snd (ledger_append sample_runtime (sample_env ''id-1'' False)
          (sample_params ''tool_call'') (sample_fresh 100))) = 1 \<and>
   chainFile (snd (ledger_append sample_runtime (sample_env ''id-1'' False)
          (sample_params ''tool_call'') (sample_fresh 100))) = None"
  using failed_write_keeps_entry[of "sample_env ''id-1'' False" sample_runtime
          "sample_params ''tool_call''" "sample_fresh 100"]
  by (simp add: Let_def sample_env_def sample_fresh_def newLedger_def)

text \<open>
  The claim as written fails: after the failed call the counter of a fresh ledger is 1
  and its entry list is no longer empty.
\<close>

theorem failed_write_keeps_entry_counterexample:
  "fst (ledger_append sample_runtime (sample_env ''id-1'' False) (sample_params ''tool_call'')
          (sample_fresh 100)) = Inl WriteFailed \<and>
   \<not> (entries (snd (ledger_append sample_runtime (sample_env ''id-1'' False)
            (sample_params ''tool_call'') (sample_fresh 100))) = entries (sample_fresh 100) \<and>
      lastHash (snd (ledger_append sample_runtime (sample_env ''id-1'' False)
            (sample_params ''tool_call'') (sample_fresh 100))) = lastHash (sample_fresh 100) \<and>
      counter (snd (ledger_append sample_runtime (sample_env ''id-1'' False)
            (sample_params ''tool_call'') (sample_fresh 100))) = counter (sample_fresh 100))"
  by (simp add: ledger_append_result ledger_append_state(3) sample_env_def)

subsection \<open>Retention\<close>

text \<open>
  Claim C5. With a limit \<open>K > 0\<close> and more than \<open>K\<close> appends on a fresh ledger, exactly
  \<open>K\<close> entries are retained. They are the last \<open>K\<close> entries of the ledger \<open>U\<close> that ran
  the same calls without a limit, unchanged, so the oldest went first and the surviving
  sequence numbers and hashes are what they were; the oldest retained entry carries the
  action of call number \<open>N - K + 1\<close>; and the chain tip (\<open>lastHash\<close>, counter) is that
  of \<open>U\<close>.
\<close>

theorem retention_keeps_newest:
  assumes "0 < maxEntries cfg" and "maxEntries cfg < int (length calls)"
  shows "let L = snd (appends R calls (newLedger cfg url gkey sec));
             U = snd (appends R calls (newLedger (cfg\<lparr>maxEntries := 0\<rparr>) url gkey sec));
             K = nat (maxEntries cfg); N = length calls
         in length (entries L) = K \<and>
            map action (entries U) = map (\<lambda>c. p_action (snd c)) calls \<and>
            entries L = drop (N - K) (entries U) \<and>
            action (hd (entries L)) = p_action (snd (calls ! (N - K))) \<and>
            map sequence (entries L) = [Suc (N - K) ..< Suc N] \<and>
            lastHash L = lastHash U \<and> counter L = counter U \<and> counter L = N"
proof -
  let ?L = "snd (appends R calls (newLedger cfg url gkey sec))"
  let ?U = "snd (appends R calls (newLedger (cfg\<lparr>maxEntries := 0\<rparr>) url gkey sec))"
  let ?K = "nat (maxEntries cfg)" and ?N = "length calls"
  note f = fresh_run[of R calls cfg url gkey sec]
  have m: "maxEntries (config (newLedger (cfg\<lparr>maxEntries := 0\<rparr>) url gkey sec)) \<le> 0" by simp
  have kn: "?K < ?N" "0 < ?K" using assms by simp_all
  have e: "entries ?L = drop (?N - ?K) (entries ?U)" using f(6) assms(1) by simp
  have len: "length (entries ?L) = ?K" using e f(1) kn by simp
  have act: "map action (entries ?U) = map (\<lambda>c. p_action (snd c)) calls"
    using untrimmed_actions[OF m, of R calls] by simp
  have seq: "map sequence (entries ?U) = [1 ..< Suc ?N]"
    using untrimmed_sequences[OF m, of R calls] by (simp del: upt_Suc)
  have "map action (entries ?L) = drop (?N - ?K) (map (\<lambda>c. p_action (snd c)) calls)"
    using e act by (simp add: drop_map[symmetric] del: drop_map)
  then have "hd (map action (entries ?L)) = p_action (snd (calls ! (?N - ?K)))"
    using kn by (simp add: hd_drop_conv_nth)
  moreover have "entries ?L \<noteq> []" using len kn by auto
  ultimately have h: "action (hd (entries ?L)) = p_action (snd (calls ! (?N - ?K)))"
    by (simp add: hd_map)
  have "map sequence (entries ?L) = drop (?N - ?K) [1 ..< Suc ?N]"
    using e seq by (simp add: drop_map[symmetric] del: drop_map upt_Suc)
  then have s: "map sequence (entries ?L) = [Suc (?N - ?K) ..< Suc ?N]"
    by (simp add: drop_upt del: upt_Suc)
  show ?thesis
    unfolding Let_def using len act e h s f(4) f(5) by simp
qed

theorem retention_keeps_newest_witness:
  "length (entries (sample_ledger 2
      [sample_call ''action_0'', sample_call ''action_1'', sample_call ''action_2''])) = 2 \<and>
   action (hd (entries (sample_ledger 2
      [sample_call ''action_0'', sample_call ''action_1'', sample_call ''action_2'']))) = ''action_1'' \<and>
   map sequence (entries (sample_ledger 2
      [sample_call ''action_0'', sample_call ''action_1'', sample_call ''action_2''])) = [2, 3]"
proof -
  let ?calls = "[sample_call ''action_0'', sample_call ''action_1'', sample_call ''action_2'']"
  let ?L = "snd (appends sample_runtime ?calls (newLedger (sample_config 2) None None [1, 2, 3, 4]))"
  have h1: "0 < maxEntries (sample_config 2)" by (simp add: sample_config_def)
  have h2: "maxEntries (sample_config 2) < int (length ?calls)" by (simp add: sample_config_def)
  have k: "nat (maxEntries (sample_config 2)) = 2" by (simp add: sample_config_def)
  have t: "length (entries ?L) = nat (maxEntries (sample_config 2)) \<and>
           action (hd (entries ?L)) =
             p_action (snd (?calls ! (length ?calls - nat (maxEntries (sample_config 2))))) \<and>
           map sequence (entries ?L) =
             [Suc (length ?calls - nat (maxEntries (sample_config 2))) ..< Suc (length ?calls)]"
    using retention_keeps_newest[OF h1 h2, of sample_runtime None None "[1, 2, 3, 4]"]
    unfolding Let_def by blast
  have a: "length (entries ?L) = 2" using t k by simp
  have "p_action (snd (?calls ! (length ?calls - 2))) = ''action_1''"
    by (simp add: sample_call_def sample_params_def)
  then have b: "action (hd (entries ?L)) = ''action_1''" using t k by simp
  have "[Suc (length ?calls - 2) ..< Suc (length ?calls)] = [2, 3]"
    by (simp add: upt_conv_Cons del: upt_Suc)
  then have c: "map sequence (entries ?L) = [2, 3]" using t k by simp
  show ?thesis
    unfolding sample_ledger_def sample_fresh_def using a b c by blast
qed

subsection \<open>Sequence numbers\<close>

text \<open>
  Claim C6. On a fresh ledger, whatever the retention limit, call number \<open>i + 1\<close> of
  \<open>append\<close> either returns an entry with sequence number \<open>i + 1\<close> or throws because its
  write failed, and the counter after \<open>N\<close> calls is \<open>N\<close>; when every write succeeds the
  sequence numbers returned are exactly \<open>1, 2, ..., N\<close> in call order.
\<close>

theorem sequence_numbers_gap_free:
  "map (map_sum id sequence) (fst (appends R calls (newLedger cfg url gkey sec))) =
     map (\<lambda>ic. if writeOk (fst (snd ic)) then Inr (Suc (fst ic)) else Inl WriteFailed)
         (enumerate 0 calls) \<and>
   counter (snd (appends R calls (newLedger cfg url gkey sec))) = length calls \<and>
   ((\<forall>c \<in> set calls. writeOk (fst c)) \<longrightarrow>
      map (map_sum id sequence) (fst (appends R calls (newLedger cfg url gkey sec))) =
        map Inr [1 ..< Suc (length calls)])"
proof -
  have a: "map (map_sum id sequence) (fst (appends R calls (newLedger cfg url gkey sec))) =
     map (\<lambda>ic. if writeOk (fst (snd ic)) then Inr (Suc (fst ic)) else Inl WriteFailed)
         (enumerate 0 calls)"
    using appends_results[of R calls "newLedger cfg url gkey sec"] by simp
  have b: "map (\<lambda>ic. if writeOk (fst (snd ic)) then Inr (Suc (fst ic)) else Inl WriteFailed)
         (enumerate n calls) = map Inr [Suc n ..< Suc (n + length calls)]"
    if "\<forall>c \<in> set calls. writeOk (fst c)" for n :: nat
    using that
  proof (induction calls arbitrary: n)
    case Nil
    then show ?case by simp
  next
    case (Cons c cs)
    from Cons.IH[of "Suc n"] Cons.prems show ?case by (simp add: upt_conv_Cons del: upt_Suc)
  qed
  show ?thesis using a b[of 0] by (simp del: upt_Suc)
qed

theorem sequence_numbers_gap_free_witness:
  "map (map_sum id sequence)
     (fst (appends sample_runtime
        [sample_call ''action_0'', sample_call ''action_1'', sample_call ''action_2'']
        (sample_fresh 2))) = [Inr 1, Inr 2, Inr 3]"
proof -
  let ?calls = "[sample_call ''action_0'', sample_call ''action_1'', sample_call ''action_2'']"
  have h: "\<forall>c \<in> set ?calls. writeOk (fst c)" by (simp add: sample_call_def sample_env_def)
  have "map (map_sum id sequence)
          (fst (appends sample_runtime ?calls (newLedger (sample_config 2) None None [1, 2, 3, 4]))) =
        map Inr [1 ..< Suc (length ?calls)]"
    using sequence_numbers_gap_free[of sample_runtime ?calls "sample_config 2" None None
            "[1, 2, 3, 4]"] h
    by blast
  moreover have "[1 ..< Suc (length ?calls)] = [1, 2, 3]"
    by (simp add: upt_conv_Cons del: upt_Suc)
  ultimately show ?thesis
    unfolding sample_fresh_def by simp
qed

subsection \<open>The genesis sentinel\<close>

text \<open>
  Claim C9, as amended. The genesis sentinel is 64 characters long, which is the length
  of every hexadecimal SHA-256 digest and so of every entry hash and signature; it is
  the rendering of the all-zero digest, and differs from a real digest by its value
  only.
\<close>

theorem genesis_same_length_as_digest:
  "length GENESIS_HASH = 64 \<and> GENESIS_HASH = digest_hex 0 \<and>
   length (computeHash R e) = 64 \<and> length (computeSignature R key e) = 64 \<and>
   length (hash (newEntry R env p L n)) = length GENESIS_HASH"
proof -
  have "length GENESIS_HASH = 64" by (simp add: GENESIS_HASH_def)
  then show ?thesis
    using genesis_is_zero_digest
    by (simp add: length_digest_hex computeHash_def computeSignature_def newEntry_hash)
qed

text \<open>The claim as written fails: the sentinel and the hash of an entry have one length.\<close>

theorem genesis_same_length_as_digest_counterexample:
  "\<not> length GENESIS_HASH \<noteq>
     length (hash (newEntry sample_runtime (sample_env ''id-1'' True) (sample_params ''test1'')
                     (sample_fresh 100) 1))"
  by (simp add: newEntry_hash computeHash_def length_digest_hex GENESIS_HASH_def)

subsection \<open>The most recent entries\<close>

text \<open>
  Claim C10. \<open>getRecent(0)\<close> returns all retained entries, since \<open>slice(-0)\<close> is
  \<open>slice(0)\<close>; for \<open>n \<ge> 1\<close> it returns the last \<open>min n count\<close> retained entries in chain
  order. Without an argument \<open>n\<close> is 50.
\<close>

theorem getRecent_slice:
  "getRecent (Some 0) L = entries L \<and>
   getRecent None L = drop (length (entries L) - 50) (entries L) \<and>
   (1 \<le> n \<longrightarrow>
      getRecent (Some n) L = drop (length (entries L) - nat n) (entries L) \<and>
      length (getRecent (Some n) L) = min (nat n) (length (entries L)))"
proof -
  have a: "getRecent (Some 0) L = entries L"
    by (simp add: getRecent_def slice_from_def)
  have b: "getRecent (Some k) L = drop (length (entries L) - nat k) (entries L)" if "1 \<le> k" for k
  proof -
    have "nat (max (int (length (entries L)) - k) 0) = length (entries L) - nat k"
      using that by linarith
    with that show ?thesis by (simp add: getRecent_def slice_from_def Let_def)
  qed
  have c: "getRecent None L = drop (length (entries L) - 50) (entries L)"
  proof -
    have "nat (max (int (length (entries L)) - 50) 0) = length (entries L) - 50" by linarith
    then show ?thesis by (simp add: getRecent_def slice_from_def Let_def)
  qed
  show ?thesis using a b[of n] c by (auto simp: min_def)
qed

theorem getRecent_slice_witness:
  "(1::int) \<le> 3 \<and>
   length (getRecent (Some 3) (sample_ledger 100
      [sample_call ''a0'', sample_call ''a1'', sample_call ''a2'', sample_call ''a3'',
       sample_call ''a4''])) = 3 \<and>
   getRecent (Some 3) (sample_ledger 100
      [sample_call ''a0'', sample_call ''a1'', sample_call ''a2'', sample_call ''a3'',
       sample_call ''a4'']) =
   drop 2 (entries (sample_ledger 100
      [sample_call ''a0'', sample_call ''a1'', sample_call ''a2'', sample_call ''a3'',
       sample_call ''a4'']))"
  using getRecent_slice[of "sample_ledger 100
      [sample_call ''a0'', sample_call ''a1'', sample_call ''a2'', sample_call ''a3'',
       sample_call ''a4'']" 3]
  by (simp add: sample_ledger_length eval_nat_numeral)

section \<open>Properties of the consent gate\<close>

subsection \<open>Classification\<close>

lemma firstMatch_find:
  "firstMatch lower table = map_option snd (find (\<lambda>entry. str_includes lower (fst entry)) table)"
  by (induction table) simp_all

lemma table_keys_lower: "\<forall>entry \<in> set TOOL_RISK_MAP. toLowerCase (fst entry) = fst entry"
  by (simp add: TOOL_RISK_MAP_def toLowerCase_def lower_char_def)

text \<open>
  Outside the names inherited from \<open>Object.prototype\<close> the code computes what the
  specification describes.
\<close>

lemma classifyRisk_refines_spec:
  assumes "tool \<notin> set OBJECT_PROTOTYPE_KEYS"
  shows "classifyRisk tool = Level (classify_spec tool)"
proof -
  have f: "find (\<lambda>entry. str_includes (toLowerCase tool) (toLowerCase (fst entry))) TOOL_RISK_MAP =
           find (\<lambda>entry. str_includes (toLowerCase tool) (fst entry)) TOOL_RISK_MAP"
    using table_keys_lower by (intro find_cong) simp_all
  show ?thesis
    using assms
    by (simp add: classifyRisk_def classify_spec_def property_def firstMatch_find f
          split: option.splits)
qed

subsection \<open>The pending table\<close>

lemma consentIdOf_decisionRecord [simp]:
  "consentIdOf (decisionRecord f st v) = Some (requestId (f_request f))"
  by (simp add: consentIdOf_def decisionRecord_def)

lemma decisionRecord_cong:
  "f_event f = f_event g \<Longrightarrow> f_risk f = f_risk g \<Longrightarrow>
   requestId (f_request f) = requestId (f_request g) \<Longrightarrow>
   decisionRecord f st v = decisionRecord g st v"
  by (simp add: decisionRecord_def)

lemma gate_inv_newGate: "gate_inv (newGate cfg)"
  by (simp add: gate_inv_def newGate_def rids_def)

lemma rid_in_rids: "a < length (frames G) \<Longrightarrow> rid G a \<in> set (rids G)"
  by (simp add: rid_def rids_def)

lemma rids_nth: "a < length (frames G) \<Longrightarrow> rids G ! a = rid G a"
  by (simp add: rid_def rids_def)

lemma rid_inj:
  "distinct (rids G) \<Longrightarrow> a < length (frames G) \<Longrightarrow> b < length (frames G) \<Longrightarrow>
   rid G a = rid G b \<Longrightarrow> a = b"
  using nth_eq_iff_index_eq[of "rids G" a b] by (simp add: rid_def rids_def)

lemma no_decisions_for_fresh:
  assumes "gate_inv G" and "uid \<notin> set (rids G)"
  shows "decisions uid G = []" and "pendingRequests G uid = None"
proof -
  from assms show "decisions uid G = []"
    by (auto simp: gate_inv_def decisions_def filter_empty_conv)
  show "pendingRequests G uid = None"
  proof (cases "pendingRequests G uid")
    case (Some a)
    with assms(1) have "a < length (frames G)" "rid G a = uid" by (auto simp: gate_inv_def)
    with assms(2) show ?thesis using rid_in_rids by blast
  qed simp
qed

lemma inv_interceptBegin:
  assumes "gate_inv G" and "uid \<notin> set (rids G)"
  shows "gate_inv (snd (interceptBegin ev uid clock G))"
proof (cases "requiresConsent (gate_config G) (ev_toolName ev)")
  case False
  with assms(1) show ?thesis by (simp add: interceptBegin_def)
next
  case True
  show ?thesis
  proof (cases "classifyRisk (ev_toolName ev)")
    case (Inherited k)
    with True assms(1) show ?thesis by (simp add: interceptBegin_def)
  next
    case (Level risk)
    let ?H = "snd (interceptBegin ev uid clock G)"
    let ?n = "length (frames G)"
    obtain f where H: "?H = G\<lparr> frames := frames G @ [f] \<rparr>"
      and f: "requestId (f_request f) = uid" "f_promise f = None" "f_state f = Sending"
             "\<not> f_timer f" "status (f_request f) = pending"
      using True Level by (simp add: interceptBegin_def)
    have r: "rids ?H = rids G @ [uid]" by (simp add: H rids_def f)
    have d: "decisions c ?H = decisions c G" for c by (simp add: H decisions_def)
    have p: "pendingRequests ?H = pendingRequests G" by (simp add: H)
    note fr = no_decisions_for_fresh[OF assms]
    have old: "frame_ok ?H a" if "a < ?n" for a
    proof -
      from that assms(1) have "frame_ok G a" by (simp add: gate_inv_def)
      moreover have "frames ?H ! a = frames G ! a" using that by (simp add: H nth_append)
      ultimately show ?thesis by (simp add: frame_ok_def d p)
    qed
    have new: "frame_ok ?H ?n"
      using f fr by (simp add: frame_ok_def H d[simplified H] finished_def)
    have all: "\<forall>a < length (frames ?H). frame_ok ?H a"
      using old new by (auto simp: H less_Suc_eq)
    have pr: "\<forall>c a. pendingRequests ?H c = Some a \<longrightarrow> a < length (frames ?H) \<and> rid ?H a = c"
    proof (intro allI impI)
      fix c a assume "pendingRequests ?H c = Some a"
      then have "pendingRequests G c = Some a" by (simp add: p)
      with assms(1) have "a < ?n" "rid G a = c" by (auto simp: gate_inv_def)
      then show "a < length (frames ?H) \<and> rid ?H a = c"
        by (simp add: H rid_def nth_append)
    qed
    have ap: "\<forall>p \<in> set (appended ?H). \<exists>c \<in> set (rids ?H). consentIdOf p = Some c"
      using assms(1) unfolding r by (auto simp: gate_inv_def H)
    show ?thesis
      unfolding gate_inv_def using assms all pr ap by (simp add: r gate_inv_def)
  qed
qed
text \<open>A step that touches one frame, its entry in the pending table and its decision record.\<close>

lemma inv_update_frame:
  assumes inv: "gate_inv G" and a: "a < length (frames G)"
    and fr: "frames H = (frames G)[a := f']"
    and ident: "requestId (f_request f') = rid G a"
    and pend: "\<forall>c. c \<noteq> rid G a \<longrightarrow> pendingRequests H c = pendingRequests G c"
    and pa: "pendingRequests H (rid G a) = Some a \<or> pendingRequests H (rid G a) = None"
    and app: "appended H = appended G \<or>
              (\<exists>p. appended H = appended G @ [p] \<and> consentIdOf p = Some (rid G a))"
    and ok: "frame_ok H a"
  shows "gate_inv H"
proof -
  have len: "length (frames H) = length (frames G)" by (simp add: fr)
  have r: "rids H = rids G"
    unfolding rids_def fr using a ident
    by (simp add: map_update rid_def list_update_same_conv)
  have d: "distinct (rids G)" using inv by (simp add: gate_inv_def)
  have other: "frame_ok H b" if b: "b < length (frames G)" and ne: "b \<noteq> a" for b
  proof -
    have okb: "frame_ok G b" using inv b by (simp add: gate_inv_def)
    have fb: "frames H ! b = frames G ! b" using ne by (simp add: fr)
    have nb: "rid G b \<noteq> rid G a" using rid_inj[OF d b a] ne by blast
    then have pb: "pendingRequests H (rid G b) = pendingRequests G (rid G b)" using pend by simp
    have db: "decisions (rid G b) H = decisions (rid G b) G"
      using app nb by (auto simp: decisions_def)
    have "frame_ok H b = frame_ok G b"
      unfolding frame_ok_def Let_def fb pb[unfolded rid_def] db[unfolded rid_def]
      by (rule refl)
    with okb show ?thesis by simp
  qed
  have all: "\<forall>b < length (frames H). frame_ok H b"
    using other ok by (auto simp: len)
  have pr: "\<forall>c b. pendingRequests H c = Some b \<longrightarrow> b < length (frames H) \<and> rid H b = c"
  proof (intro allI impI)
    fix c b assume s: "pendingRequests H c = Some b"
    have ridH: "rid H x = rid G x" if "x < length (frames G)" for x
      using that rids_nth[of x H] rids_nth[of x G] r len by simp
    show "b < length (frames H) \<and> rid H b = c"
    proof (cases "c = rid G a")
      case True
      with s pa have "b = a" by auto
      with a True show ?thesis by (simp add: len ridH)
    next
      case False
      with s pend have "pendingRequests G c = Some b" by simp
      with inv have "b < length (frames G)" "rid G b = c" by (auto simp: gate_inv_def)
      then show ?thesis by (simp add: len ridH)
    qed
  qed
  have ap: "\<forall>p \<in> set (appended H). \<exists>c \<in> set (rids H). consentIdOf p = Some c"
    using inv app rid_in_rids[OF a] unfolding r by (auto simp: gate_inv_def)
  show ?thesis
    unfolding gate_inv_def using d all pr ap by (simp add: r)
qed

lemma pending_frame:
  assumes "gate_inv G" and "pendingRequests G c = Some a"
  shows "a < length (frames G)" and "rid G a = c"
    and "f_state (frames G ! a) = Waiting" and "f_promise (frames G ! a) = None"
    and "statusOf G a = pending" and "decisions c G = []"
proof -
  from assms show a: "a < length (frames G)" and r: "rid G a = c"
    by (auto simp: gate_inv_def)
  from assms(1) a have "frame_ok G a" by (simp add: gate_inv_def)
  with assms(2) r have "f_state (frames G ! a) = Waiting \<and> f_promise (frames G ! a) = None \<and>
      statusOf G a = pending \<and> decisions c G = []"
    unfolding frame_ok_def Let_def rid_def statusOf_def
    by (auto split: if_splits)
  then show "f_state (frames G ! a) = Waiting" "f_promise (frames G ! a) = None"
    "statusOf G a = pending" "decisions c G = []" by simp_all
qed

lemma inv_waitForApproval:
  assumes inv: "gate_inv G" and a: "a < length (frames G)" and s: "f_state (frames G ! a) = Sending"
  shows "gate_inv (waitForApproval a G)"
proof -
  let ?H = "waitForApproval a G"
  from inv a have ok: "frame_ok G a" by (simp add: gate_inv_def)
  show ?thesis
  proof (rule inv_update_frame[OF inv a])
    show "frames ?H = (frames G)[a := (frames G ! a)\<lparr> f_timer := True, f_state := Waiting \<rparr>]"
      by (simp add: waitForApproval_def)
    show "requestId (f_request ((frames G ! a)\<lparr> f_timer := True, f_state := Waiting \<rparr>)) = rid G a"
      by (simp add: rid_def)
    show "\<forall>c. c \<noteq> rid G a \<longrightarrow> pendingRequests ?H c = pendingRequests G c"
      by (simp add: waitForApproval_def rid_def)
    show "pendingRequests ?H (rid G a) = Some a \<or> pendingRequests ?H (rid G a) = None"
      by (simp add: waitForApproval_def rid_def)
    show "appended ?H = appended G \<or>
          (\<exists>p. appended ?H = appended G @ [p] \<and> consentIdOf p = Some (rid G a))"
      by (simp add: waitForApproval_def)
    show "frame_ok ?H a"
      using ok s a unfolding frame_ok_def Let_def
      by (simp add: waitForApproval_def decisions_def finished_def)
  qed
qed

lemma handleResponse_absent:
  "pendingRequests G c = None \<Longrightarrow> handleResponse c b G = (False, G)"
  by (simp add: handleResponse_def)

lemma inv_handleResponse:
  assumes inv: "gate_inv G"
  shows "gate_inv (snd (handleResponse c b G))"
proof (cases "pendingRequests G c")
  case None
  with inv show ?thesis by (simp add: handleResponse_def)
next
  case (Some a)
  note pf = pending_frame[OF inv Some]
  let ?H = "snd (handleResponse c b G)"
  let ?f = "(frames G ! a)\<lparr> f_promise := Some b \<rparr>"
  have fr: "frames ?H = (frames G)[a := ?f]"
    using Some pf by (simp add: handleResponse_def resolve_def)
  have pe: "pendingRequests ?H = (pendingRequests G)(c := None)"
    using Some by (simp add: handleResponse_def resolve_def)
  have ap: "appended ?H = appended G"
    using Some by (simp add: handleResponse_def resolve_def)
  show ?thesis
  proof (rule inv_update_frame[OF inv pf(1) fr])
    show "requestId (f_request ?f) = rid G a" by (simp add: rid_def)
    show "\<forall>x. x \<noteq> rid G a \<longrightarrow> pendingRequests ?H x = pendingRequests G x"
      by (simp add: pe pf(2))
    show "pendingRequests ?H (rid G a) = Some a \<or> pendingRequests ?H (rid G a) = None"
      by (simp add: pe pf(2))
    show "appended ?H = appended G \<or>
          (\<exists>p. appended ?H = appended G @ [p] \<and> consentIdOf p = Some (rid G a))"
      by (simp add: ap)
    show "frame_ok ?H a"
      using pf unfolding frame_ok_def Let_def fr
      by (simp add: pe decisions_def ap finished_def statusOf_def rid_def)
  qed
qed
lemma inv_disarm:
  assumes inv: "gate_inv G" and a: "a < length (frames G)"
  shows "gate_inv (G\<lparr> frames := (frames G)[a := (frames G ! a)\<lparr> f_timer := False \<rparr>] \<rparr>)"
proof -
  let ?H = "G\<lparr> frames := (frames G)[a := (frames G ! a)\<lparr> f_timer := False \<rparr>] \<rparr>"
  from inv a have ok: "frame_ok G a" by (simp add: gate_inv_def)
  show ?thesis
  proof (rule inv_update_frame[OF inv a])
    show "frames ?H = (frames G)[a := (frames G ! a)\<lparr> f_timer := False \<rparr>]" by simp
    show "requestId (f_request ((frames G ! a)\<lparr> f_timer := False \<rparr>)) = rid G a"
      by (simp add: rid_def)
    show "\<forall>c. c \<noteq> rid G a \<longrightarrow> pendingRequests ?H c = pendingRequests G c" by simp
    show "pendingRequests ?H (rid G a) = Some a \<or> pendingRequests ?H (rid G a) = None"
      using ok unfolding frame_ok_def Let_def rid_def by (simp split: if_splits)
    show "appended ?H = appended G \<or>
          (\<exists>p. appended ?H = appended G @ [p] \<and> consentIdOf p = Some (rid G a))" by simp
    show "frame_ok ?H a"
      using ok a unfolding frame_ok_def Let_def
      by (auto simp: decisions_def finished_def decisionRecord_def)
  qed
qed

lemma timeoutCallback_absent:
  "pendingRequests G (rid G a) = None \<Longrightarrow> timeoutCallback a G = G"
  by (simp add: timeoutCallback_def Let_def rid_def)

lemma timeoutCallback_claims:
  assumes inv: "gate_inv G" and a: "a < length (frames G)"
    and p: "pendingRequests G (rid G a) \<noteq> None"
  shows "frames (timeoutCallback a G) =
           (frames G)[a := (frames G ! a)\<lparr> f_request := (f_request (frames G ! a))\<lparr> status := timeout \<rparr>,
                                          f_promise := Some False \<rparr>]"
    and "pendingRequests (timeoutCallback a G) = (pendingRequests G)(rid G a := None)"
    and "appended (timeoutCallback a G) = appended G"
    and "f_promise (frames G ! a) = None"
    and "statusOf G a = pending"
    and "f_state (frames G ! a) = Waiting"
proof -
  from p obtain a' where s: "pendingRequests G (rid G a) = Some a'" by blast
  note pf = pending_frame[OF inv s]
  have d: "distinct (rids G)" using inv by (simp add: gate_inv_def)
  have e: "a' = a" using rid_inj[OF d pf(1) a pf(2)] .
  show n: "f_promise (frames G ! a) = None" using pf(4) e by simp
  show "statusOf G a = pending" using pf(5) e by simp
  show "f_state (frames G ! a) = Waiting" using pf(3) e by simp
  show "frames (timeoutCallback a G) =
           (frames G)[a := (frames G ! a)\<lparr> f_request := (f_request (frames G ! a))\<lparr> status := timeout \<rparr>,
                                          f_promise := Some False \<rparr>]"
    using p a n by (simp add: timeoutCallback_def Let_def resolve_def rid_def)
  show "pendingRequests (timeoutCallback a G) = (pendingRequests G)(rid G a := None)"
    using p a n by (simp add: timeoutCallback_def Let_def resolve_def rid_def)
  show "appended (timeoutCallback a G) = appended G"
    using p a n by (simp add: timeoutCallback_def Let_def resolve_def rid_def)
qed

lemma inv_timeoutCallback:
  assumes inv: "gate_inv G" and a: "a < length (frames G)"
  shows "gate_inv (timeoutCallback a G)"
proof (cases "pendingRequests G (rid G a) = None")
  case True
  with inv show ?thesis by (simp add: timeoutCallback_absent)
next
  case False
  note tc = timeoutCallback_claims[OF inv a False]
  let ?H = "timeoutCallback a G"
  from inv a have ok: "frame_ok G a" by (simp add: gate_inv_def)
  show ?thesis
  proof (rule inv_update_frame[OF inv a tc(1)])
    show "requestId (f_request ((frames G ! a)\<lparr> f_request := (f_request (frames G ! a))\<lparr> status := timeout \<rparr>,
                                          f_promise := Some False \<rparr>)) = rid G a"
      by (simp add: rid_def)
    show "\<forall>c. c \<noteq> rid G a \<longrightarrow> pendingRequests ?H c = pendingRequests G c"
      by (simp add: tc(2))
    show "pendingRequests ?H (rid G a) = Some a \<or> pendingRequests ?H (rid G a) = None"
      by (simp add: tc(2))
    show "appended ?H = appended G \<or>
          (\<exists>p. appended ?H = appended G @ [p] \<and> consentIdOf p = Some (rid G a))"
      by (simp add: tc(3))
    show "frame_ok ?H a"
      using ok a tc(4,6) unfolding frame_ok_def Let_def tc(1)
      by (simp add: tc(2) tc(3) decisions_def finished_def rid_def)
  qed
qed

lemma interceptResume_fields:
  assumes a: "a < length (frames G)"
  shows "frames (interceptResume a v clock ok G) ! a =
           (frames G ! a)\<lparr> f_request := (f_request (frames G ! a))
                                \<lparr> status := terminal (statusOf G a) v, resolvedAt := Some clock \<rparr>,
                            f_state := f_state (frames (interceptResume a v clock ok G) ! a) \<rparr>"
    and "finished (frames (interceptResume a v clock ok G) ! a)"
    and "length (frames (interceptResume a v clock ok G)) = length (frames G)"
    and "\<forall>b. b \<noteq> a \<longrightarrow> frames (interceptResume a v clock ok G) ! b = frames G ! b"
    and "pendingRequests (interceptResume a v clock ok G) = pendingRequests G"
    and "appended (interceptResume a v clock ok G) =
           appended G @ [decisionRecord (frames (interceptResume a v clock ok G) ! a)
                           (terminal (statusOf G a) v) v]"
  using a
  by (simp_all add: interceptResume_def Let_def terminal_def statusOf_def finished_def
        decisionRecord_def)

lemma inv_interceptResume:
  assumes inv: "gate_inv G" and a: "a < length (frames G)"
    and w: "f_state (frames G ! a) = Waiting" and v: "f_promise (frames G ! a) = Some v"
  shows "gate_inv (interceptResume a v clock ok G)"
proof -
  let ?H = "interceptResume a v clock ok G"
  note ir = interceptResume_fields[OF a, of v clock ok]
  from inv a have ok: "frame_ok G a" by (simp add: gate_inv_def)
  have fr: "frames ?H = (frames G)[a := frames ?H ! a]"
    using a ir(3) ir(4) by (intro nth_equalityI) (auto simp: nth_list_update)
  have idn: "requestId (f_request (frames ?H ! a)) = rid G a"
    by (subst ir(1)) (simp add: rid_def)
  show ?thesis
  proof (rule inv_update_frame[OF inv a fr idn])
    show "\<forall>c. c \<noteq> rid G a \<longrightarrow> pendingRequests ?H c = pendingRequests G c"
      by (simp add: ir(5))
    show "pendingRequests ?H (rid G a) = Some a \<or> pendingRequests ?H (rid G a) = None"
      using ok w v unfolding frame_ok_def Let_def by (simp add: ir(5) rid_def)
    show "appended ?H = appended G \<or>
          (\<exists>p. appended ?H = appended G @ [p] \<and> consentIdOf p = Some (rid G a))"
      using ir(6) idn by simp
    have st: "status (f_request (frames ?H ! a)) = terminal (statusOf G a) v"
      by (subst ir(1)) simp
    have pr: "f_promise (frames ?H ! a) = Some v"
      by (subst ir(1)) (simp add: v)
    have dG: "decisions (rid G a) G = []"
      using ok w v unfolding frame_ok_def Let_def by (simp add: rid_def finished_def)
    have dH: "decisions (rid G a) ?H =
                [decisionRecord (frames ?H ! a) (terminal (statusOf G a) v) v]"
      using dG idn unfolding decisions_def ir(6) by simp
    have tm: "statusOf G a = timeout \<longrightarrow> \<not> v" "statusOf G a = pending \<or> statusOf G a = timeout"
      using ok w v unfolding frame_ok_def Let_def statusOf_def by (simp_all add: finished_def)
    show "frame_ok ?H a"
      unfolding frame_ok_def Let_def idn st pr
      using ir(2) dH tm ok w v
      by (auto simp: ir(5) terminal_def finished_def frame_ok_def Let_def rid_def)
  qed
qed

lemma inv_step:
  assumes "gate_inv G" and "fresh_for G e"
  shows "gate_inv (gate_step e G)"
proof (cases e)
  case (Intercept ev uid clock)
  with assms show ?thesis by (simp add: inv_interceptBegin)
next
  case (SendDone a)
  with assms show ?thesis by (simp add: inv_waitForApproval)
next
  case (Response c b)
  with assms show ?thesis by (simp add: inv_handleResponse)
next
  case (TimerFired a)
  with assms show ?thesis
    using inv_timeoutCallback[OF inv_disarm[of G a], of a] by simp
next
  case (Resume a clock ok)
  with assms show ?thesis by (simp add: inv_interceptResume split: option.splits)
qed
lemma map_update_same:
  "(a < length xs \<Longrightarrow> g x = g (xs ! a)) \<Longrightarrow> map g (xs[a := x]) = map g xs"
  by (cases "a < length xs") (simp_all add: map_update list_update_same_conv list_update_beyond)

lemma rids_resolve [simp]: "rids (resolve a v G) = rids G"
  by (simp add: resolve_def rids_def map_update_same)

lemma rids_step:
  "\<exists>new. rids (gate_step e G) = rids G @ new \<and> set new \<subseteq> set (uuids [e])"
proof (cases e)
  case (Intercept ev uid clock)
  then show ?thesis
    by (auto simp: interceptBegin_def rids_def split: risk_value.splits)
next
  case (SendDone a)
  then show ?thesis by (simp add: waitForApproval_def rids_def map_update_same)
next
  case (Response c b)
  then show ?thesis
    by (cases "pendingRequests G c") (simp_all add: handleResponse_def rids_def[of "_\<lparr>pendingRequests := _\<rparr>"] rids_def[symmetric])
next
  case (TimerFired a)
  then show ?thesis
    by (simp add: timeoutCallback_def Let_def) (simp add: rids_def map_update_same)
next
  case (Resume a clock ok)
  then show ?thesis
    by (simp add: interceptResume_def Let_def rids_def map_update_same split: option.splits)
qed

lemma frames_step:
  assumes "a < length (frames G)"
  shows "a < length (frames (gate_step e G))" and "rid (gate_step e G) a = rid G a"
proof -
  from rids_step[of e G] obtain new where n: "rids (gate_step e G) = rids G @ new" by blast
  have l: "length (rids H) = length (frames H)" for H by (simp add: rids_def)
  from n have "length (frames (gate_step e G)) = length (frames G) + length new"
    using l[of "gate_step e G"] l[of G] by simp
  with assms show a: "a < length (frames (gate_step e G))" by simp
  have "rids (gate_step e G) ! a = rids G ! a" using n assms l[of G] by (simp add: nth_append)
  then show "rid (gate_step e G) a = rid G a"
    using rids_nth[OF a] rids_nth[OF assms] by simp
qed

lemma uuids_append: "uuids (xs @ ys) = uuids xs @ uuids ys"
  by (induction xs rule: uuids.induct) simp_all

lemma fresh_for_head:
  "distinct (uuids (e # es)) \<Longrightarrow> set (uuids (e # es)) \<inter> set (rids G) = {} \<Longrightarrow> fresh_for G e"
  by (cases e) auto

lemma fresh_tail:
  assumes "distinct (uuids (e # es))" and "set (uuids (e # es)) \<inter> set (rids G) = {}"
  shows "distinct (uuids es)" and "set (uuids es) \<inter> set (rids (gate_step e G)) = {}"
proof -
  from rids_step[of e G] obtain new where
    n: "rids (gate_step e G) = rids G @ new" "set new \<subseteq> set (uuids [e])" by blast
  from assms(1) show "distinct (uuids es)" by (cases e) simp_all
  from assms n show "set (uuids es) \<inter> set (rids (gate_step e G)) = {}"
    by (cases e) auto
qed

lemma run_inv:
  "gate_inv G \<Longrightarrow> distinct (uuids es) \<Longrightarrow> set (uuids es) \<inter> set (rids G) = {} \<Longrightarrow>
   gate_inv (run_gate es G)"
proof (induction es arbitrary: G)
  case Nil
  then show ?case by simp
next
  case (Cons e es)
  have "gate_inv (gate_step e G)"
    using Cons.prems by (intro inv_step fresh_for_head[of e es])
  with Cons.IH[of "gate_step e G"] fresh_tail[OF Cons.prems(2,3)] show ?case by simp
qed

lemma run_rids:
  "set (rids (run_gate es G)) \<subseteq> set (rids G) \<union> set (uuids es)"
proof (induction es arbitrary: G)
  case Nil
  then show ?case by simp
next
  case (Cons e es)
  from rids_step[of e G] obtain new where
    n: "rids (gate_step e G) = rids G @ new" "set new \<subseteq> set (uuids [e])" by blast
  have "set (uuids [e]) \<union> set (uuids es) = set (uuids (e # es))" by (cases e) auto
  with Cons.IH[of "gate_step e G"] n show ?case by auto
qed

text \<open>Once the promise of a frame is settled, no step changes who claimed it.\<close>

lemma claimed_step:
  assumes inv: "gate_inv G" and a: "a < length (frames G)"
    and v: "f_promise (frames G ! a) = Some v"
  shows "f_promise (frames (gate_step e G) ! a) = Some v"
    and "(statusOf (gate_step e G) a = timeout) = (statusOf G a = timeout)"
proof -
  from inv a have ok: "frame_ok G a" by (simp add: gate_inv_def)
  have "f_promise (frames (gate_step e G) ! a) = Some v \<and>
        (statusOf (gate_step e G) a = timeout) = (statusOf G a = timeout)"
  proof (cases e)
    case (Intercept ev uid clock)
    then show ?thesis
      using a v by (auto simp: interceptBegin_def statusOf_def nth_append split: risk_value.splits)
  next
    case (SendDone a')
    have "a' \<noteq> a" if "f_state (frames G ! a') = Sending"
      using that ok v unfolding frame_ok_def Let_def by auto
    then show ?thesis
      using SendDone a v by (auto simp: waitForApproval_def statusOf_def)
  next
    case (Response c b)
    show ?thesis
    proof (cases "pendingRequests G c")
      case None
      with Response v show ?thesis by (simp add: handleResponse_def)
    next
      case (Some a')
      note pf = pending_frame[OF inv Some]
      from pf(4) v have "a' \<noteq> a" by auto
      then show ?thesis
        using Response Some v pf(1) by (simp add: handleResponse_def resolve_def statusOf_def)
    qed
  next
    case (TimerFired a')
    show ?thesis
    proof (cases "a' < length (frames G) \<and> f_timer (frames G ! a')")
      case False
      with TimerFired v show ?thesis by auto
    next
      case True
      let ?D = "G\<lparr> frames := (frames G)[a' := (frames G ! a')\<lparr> f_timer := False \<rparr>] \<rparr>"
      have iD: "gate_inv ?D" using inv True by (intro inv_disarm) simp_all
      have lD: "a' < length (frames ?D)" using True by simp
      have aD: "f_promise (frames ?D ! a) = Some v" "statusOf ?D a = statusOf G a"
        using a v True by (auto simp: nth_list_update statusOf_def)
      show ?thesis
      proof (cases "pendingRequests ?D (rid ?D a') = None")
        case True
        then show ?thesis
          using TimerFired \<open>a' < length (frames G) \<and> f_timer (frames G ! a')\<close> aD
          by (simp add: timeoutCallback_absent statusOf_def)
      next
        case False
        note tc = timeoutCallback_claims[OF iD lD False]
        from tc(4) aD(1) have ne: "a' \<noteq> a" by auto
        have "frames (timeoutCallback a' ?D) ! a = frames ?D ! a"
          unfolding tc(1) using ne by simp
        then show ?thesis
          using TimerFired \<open>a' < length (frames G) \<and> f_timer (frames G ! a')\<close> aD
          by (simp add: statusOf_def)
      qed
    qed
  next
    case (Resume a' clock okv)
    show ?thesis
    proof (cases "a' < length (frames G) \<and> f_state (frames G ! a') = Waiting \<and>
                  f_promise (frames G ! a') \<noteq> None")
      case False
      with Resume v show ?thesis by (auto split: option.splits)
    next
      case True
      then obtain w where w: "f_promise (frames G ! a') = Some w" by auto
      have al: "a' < length (frames G)" using True by simp
      note ir = interceptResume_fields[OF al, of w clock okv]
      have st: "gate_step e G = interceptResume a' w clock okv G"
        using Resume True w by simp
      show ?thesis
      proof (cases "a' = a")
        case False
        then show ?thesis unfolding st using ir(4) v by (simp add: statusOf_def)
      next
        case same: True
        have tm: "statusOf G a = pending \<or> statusOf G a = timeout"
          using ok True same v unfolding frame_ok_def Let_def statusOf_def
          by (auto simp: finished_def)
        have "f_promise (frames (interceptResume a w clock okv G) ! a) = Some v"
          using ir(1) v same by (metis (no_types, lifting) Frame.select_convs(4) Frame.surjective Frame.update_convs(3) Frame.update_convs(6))
        moreover have "status (f_request (frames (interceptResume a w clock okv G) ! a)) =
              terminal (statusOf G a) w"
          using ir(1) same by (metis (no_types, lifting) ConsentRequest.select_convs(6)
                ConsentRequest.surjective ConsentRequest.update_convs(6) ConsentRequest.update_convs(8)
                Frame.select_convs(3) Frame.surjective Frame.update_convs(3) Frame.update_convs(6))
        ultimately show ?thesis
          unfolding st using same tm by (auto simp: statusOf_def terminal_def)
      qed
    qed
  qed
  then show "f_promise (frames (gate_step e G) ! a) = Some v"
    and "(statusOf (gate_step e G) a = timeout) = (statusOf G a = timeout)" by simp_all
qed

lemma claimed_run:
  assumes "gate_inv G" and "a < length (frames G)" and "f_promise (frames G ! a) = Some v"
    and "distinct (uuids es)" and "set (uuids es) \<inter> set (rids G) = {}"
  shows "gate_inv (run_gate es G) \<and> a < length (frames (run_gate es G)) \<and>
         rid (run_gate es G) a = rid G a \<and>
         f_promise (frames (run_gate es G) ! a) = Some v \<and>
         (statusOf (run_gate es G) a = timeout) = (statusOf G a = timeout)"
  using assms
proof (induction es arbitrary: G)
  case Nil
  then show ?case by simp
next
  case (Cons e es)
  let ?H = "gate_step e G"
  have i: "gate_inv ?H"
    using Cons.prems(1,4,5) by (intro inv_step fresh_for_head[of e es])
  note fs = frames_step[OF Cons.prems(2), of e]
  note cs = claimed_step[OF Cons.prems(1,2,3), of e]
  note ft = fresh_tail[OF Cons.prems(4,5)]
  from Cons.IH[OF i fs(1) cs(1) ft] fs(2) cs(2) show ?case by simp
qed

lemma unclaimed_pending:
  assumes "gate_inv G" and "a < length (frames G)"
    and "f_state (frames G ! a) = Waiting" and "f_promise (frames G ! a) = None"
  shows "pendingRequests G (rid G a) = Some a"
  using assms unfolding gate_inv_def frame_ok_def Let_def rid_def by auto

lemma claimed_not_pending:
  assumes "gate_inv G" and "a < length (frames G)" and "f_promise (frames G ! a) = Some v"
  shows "pendingRequests G (rid G a) = None"
  using assms unfolding gate_inv_def frame_ok_def Let_def rid_def by auto

lemma claimed_facts:
  assumes inv: "gate_inv G" and a: "a < length (frames G)"
    and v: "f_promise (frames G ! a) = Some v"
  shows "statusOf G a = timeout \<longrightarrow> \<not> v"
    and "finished (frames G ! a) \<longrightarrow>
           statusOf G a = terminal (statusOf G a) v \<and>
           decisions (rid G a) G = [decisionRecord (frames G ! a) (statusOf G a) v]"
    and "\<not> finished (frames G ! a) \<longrightarrow>
           decisions (rid G a) G = [] \<and> f_state (frames G ! a) = Waiting"
proof -
  from inv a have ok: "frame_ok G a" by (simp add: gate_inv_def)
  from ok v show "statusOf G a = timeout \<longrightarrow> \<not> v"
    unfolding frame_ok_def Let_def statusOf_def by auto
  from ok v show "finished (frames G ! a) \<longrightarrow>
           statusOf G a = terminal (statusOf G a) v \<and>
           decisions (rid G a) G = [decisionRecord (frames G ! a) (statusOf G a) v]"
    unfolding frame_ok_def Let_def statusOf_def rid_def by auto
  from ok v show "\<not> finished (frames G ! a) \<longrightarrow>
           decisions (rid G a) G = [] \<and> f_state (frames G ! a) = Waiting"
    unfolding frame_ok_def Let_def rid_def finished_def
    by (cases "f_state (frames G ! a)") auto
qed

lemma reachable_inv:
  assumes "distinct (uuids evs)"
  shows "gate_inv (run_gate evs (newGate cfg))"
    and "set (rids (run_gate evs (newGate cfg))) \<subseteq> set (uuids evs)"
proof -
  have r: "rids (newGate cfg) = []" by (simp add: rids_def newGate_def)
  show "gate_inv (run_gate evs (newGate cfg))"
    using assms by (intro run_inv gate_inv_newGate) (simp_all add: r)
  show "set (rids (run_gate evs (newGate cfg))) \<subseteq> set (uuids evs)"
    using run_rids[of evs "newGate cfg"] by (simp add: r)
qed

section \<open>Claims about the consent gate\<close>

subsection \<open>Resolution of a consent request\<close>

text \<open>
  Claim C3. Take any schedule of gate steps in which every \<open>intercept\<close> draws a fresh
  request id, split anywhere into \<open>evs\<close> and \<open>evs'\<close>, and any frame \<open>a\<close> that exists
  after \<open>evs\<close>. While the request is registered and unclaimed, a response for its id
  returns true and settles the promise with the given answer, and the timer settles
  it with false and sets the status \<open>timeout\<close>. Once the promise is settled with \<open>v\<close>,
  after any further steps \<open>evs'\<close> it is still settled with \<open>v\<close>; \<open>handleResponse\<close> for
  the id returns false and changes nothing, and the timer callback changes nothing;
  whether the timer was the one that claimed does not change; no decision record of
  that id is appended before \<open>intercept\<close> resumes, resuming appends exactly one, and a
  finished frame has exactly one, with the terminal status \<open>timeout\<close> if the timer
  claimed and \<open>approved\<close> or \<open>rejected\<close> according to \<open>v\<close> otherwise.
\<close>

theorem consent_resolved_once:
  assumes fresh: "distinct (uuids (evs @ evs'))"
    and a: "a < length (frames (run_gate evs (newGate cfg)))"
  shows "let G = run_gate evs (newGate cfg); G' = run_gate evs' G; cid = rid G a
         in (f_state (frames G ! a) = Waiting \<and> f_promise (frames G ! a) = None \<longrightarrow>
               fst (handleResponse cid b G) = True \<and>
               f_promise (frames (snd (handleResponse cid b G)) ! a) = Some b \<and>
               statusOf (snd (handleResponse cid b G)) a = pending \<and>
               f_promise (frames (timeoutCallback a G) ! a) = Some False \<and>
               statusOf (timeoutCallback a G) a = timeout) \<and>
            (f_promise (frames G ! a) = Some v \<longrightarrow>
               rid G' a = cid \<and> f_promise (frames G' ! a) = Some v \<and>
               handleResponse cid b G' = (False, G') \<and> timeoutCallback a G' = G' \<and>
               (statusOf G a = timeout \<longrightarrow> \<not> v) \<and>
               (statusOf G' a = timeout) = (statusOf G a = timeout) \<and>
               (finished (frames G' ! a) \<longrightarrow>
                  statusOf G' a = terminal (statusOf G a) v \<and>
                  decisions cid G' = [decisionRecord (frames G' ! a) (statusOf G' a) v]) \<and>
               (\<not> finished (frames G' ! a) \<longrightarrow>
                  decisions cid G' = [] \<and>
                  finished (frames (gate_step (Resume a clock ok) G') ! a) \<and>
                  length (decisions cid (gate_step (Resume a clock ok) G')) = 1))"
proof -
  let ?G = "run_gate evs (newGate cfg)"
  let ?G' = "run_gate evs' ?G"
  let ?cid = "rid ?G a"
  have d1: "distinct (uuids evs)" and d2: "distinct (uuids evs')"
    and dj: "set (uuids evs') \<inter> set (uuids evs) = {}"
    using fresh by (auto simp: uuids_append)
  note ri = reachable_inv[OF d1, of cfg]
  have inv: "gate_inv ?G" by (rule ri(1))
  have dj': "set (uuids evs') \<inter> set (rids ?G) = {}" using dj ri(2) by auto
  have part1: "fst (handleResponse ?cid b ?G) = True \<and>
               f_promise (frames (snd (handleResponse ?cid b ?G)) ! a) = Some b \<and>
               statusOf (snd (handleResponse ?cid b ?G)) a = pending \<and>
               f_promise (frames (timeoutCallback a ?G) ! a) = Some False \<and>
               statusOf (timeoutCallback a ?G) a = timeout"
    if w: "f_state (frames ?G ! a) = Waiting" and n: "f_promise (frames ?G ! a) = None"
  proof -
    have p: "pendingRequests ?G ?cid = Some a" by (rule unclaimed_pending[OF inv a w n])
    note pf = pending_frame[OF inv p]
    have h: "fst (handleResponse ?cid b ?G) = True \<and>
             f_promise (frames (snd (handleResponse ?cid b ?G)) ! a) = Some b \<and>
             statusOf (snd (handleResponse ?cid b ?G)) a = pending"
      using p a n pf(5) by (simp add: handleResponse_def resolve_def statusOf_def)
    have "pendingRequests ?G ?cid \<noteq> None" using p by simp
    note tc = timeoutCallback_claims[OF inv a this]
    have "f_promise (frames (timeoutCallback a ?G) ! a) = Some False \<and>
          statusOf (timeoutCallback a ?G) a = timeout"
      unfolding statusOf_def tc(1) using a by simp
    with h show ?thesis by simp
  qed
  have part2: "rid ?G' a = ?cid \<and> f_promise (frames ?G' ! a) = Some v \<and>
               handleResponse ?cid b ?G' = (False, ?G') \<and> timeoutCallback a ?G' = ?G' \<and>
               (statusOf ?G a = timeout \<longrightarrow> \<not> v) \<and>
               (statusOf ?G' a = timeout) = (statusOf ?G a = timeout) \<and>
               (finished (frames ?G' ! a) \<longrightarrow>
                  statusOf ?G' a = terminal (statusOf ?G a) v \<and>
                  decisions ?cid ?G' = [decisionRecord (frames ?G' ! a) (statusOf ?G' a) v]) \<and>
               (\<not> finished (frames ?G' ! a) \<longrightarrow>
                  decisions ?cid ?G' = [] \<and>
                  finished (frames (gate_step (Resume a clock ok) ?G') ! a) \<and>
                  length (decisions ?cid (gate_step (Resume a clock ok) ?G')) = 1)"
    if v: "f_promise (frames ?G ! a) = Some v"
  proof -
    from claimed_run[OF inv a v d2 dj']
    have inv': "gate_inv ?G'" and a': "a < length (frames ?G')" and r': "rid ?G' a = ?cid"
      and v': "f_promise (frames ?G' ! a) = Some v"
      and t': "(statusOf ?G' a = timeout) = (statusOf ?G a = timeout)" by simp_all
    have np: "pendingRequests ?G' ?cid = None"
      using claimed_not_pending[OF inv' a' v'] r' by simp
    have hr: "handleResponse ?cid b ?G' = (False, ?G')" using np by (rule handleResponse_absent)
    have tc: "timeoutCallback a ?G' = ?G'" using np r' by (intro timeoutCallback_absent) simp
    note cf = claimed_facts[OF inv a v]
    note cf' = claimed_facts[OF inv' a' v']
    have fin: "statusOf ?G' a = terminal (statusOf ?G a) v \<and>
               decisions ?cid ?G' = [decisionRecord (frames ?G' ! a) (statusOf ?G' a) v]"
      if f: "finished (frames ?G' ! a)"
    proof -
      from cf'(2) f have s: "statusOf ?G' a = terminal (statusOf ?G' a) v"
        and d: "decisions (rid ?G' a) ?G' = [decisionRecord (frames ?G' ! a) (statusOf ?G' a) v]"
        by simp_all
      have "terminal (statusOf ?G' a) v = terminal (statusOf ?G a) v"
        using t' by (simp add: terminal_def)
      with s d r' show ?thesis by simp
    qed
    have unf: "decisions ?cid ?G' = [] \<and>
               finished (frames (gate_step (Resume a clock ok) ?G') ! a) \<and>
               length (decisions ?cid (gate_step (Resume a clock ok) ?G')) = 1"
      if nf: "\<not> finished (frames ?G' ! a)"
    proof -
      from cf'(3) nf r' have d0: "decisions ?cid ?G' = []"
        and w: "f_state (frames ?G' ! a) = Waiting" by simp_all
      let ?R = "gate_step (Resume a clock ok) ?G'"
      have st: "?R = interceptResume a v clock ok ?G'" using a' w v' by simp
      have f: "finished (frames ?R ! a)"
        unfolding st by (rule interceptResume_fields(2)[OF a'])
      have iR: "gate_inv ?R" using inv' by (intro inv_step) simp_all
      note fs = frames_step[OF a', of "Resume a clock ok"]
      note cs = claimed_step[OF inv' a' v', of "Resume a clock ok"]
      from claimed_facts(2)[OF iR fs(1) cs(1)] f fs(2) r'
      have "length (decisions ?cid ?R) = 1" by simp
      with d0 f show ?thesis by simp
    qed
    show ?thesis using r' v' hr tc cf(1) t' fin unf by blast
  qed
  show ?thesis unfolding Let_def using part1 part2 by blast
qed

theorem consent_resolved_once_witness:
  "fst (handleResponse ''req-1'' True sample_registered) = True \<and>
   statusOf (timeoutCallback 0 sample_registered) 0 = timeout \<and>
   handleResponse ''req-1'' False sample_raced = (False, sample_raced) \<and>
   timeoutCallback 0 sample_raced = sample_raced \<and>
   statusOf sample_raced 0 = approved \<and>
   map p_action (decisions ''req-1'' sample_raced) = [''consent_approved'']"
proof -
  let ?cfg = "sample_gate_config [] [] high"
  let ?es1 = "[Intercept sample_event ''req-1'' ''t0'', SendDone 0]"
  let ?es2 = "[Intercept sample_event ''req-1'' ''t0'', SendDone 0, Response ''req-1'' True]"
  let ?es3 = "[TimerFired 0, Response ''req-1'' False, Resume 0 ''t1'' True]"
  have rc: "requiresConsent ?cfg ''exec''" "classifyRisk ''exec'' = Level critical"
    by (simp_all add: requiresConsent_def sample_gate_config_def classifyRisk_def property_def
          TOOL_RISK_MAP_def)
  have b: "snd (interceptBegin sample_event ''req-1'' ''t0''
             \<lparr> gate_config = ?cfg, pendingRequests = Map.empty, frames = [], appended = [] \<rparr>) =
           \<lparr> gate_config = ?cfg, pendingRequests = Map.empty, frames =
             [\<lparr> f_event = sample_event, f_risk = critical,
                f_request = \<lparr> requestId = ''req-1'', r_toolName = ''exec'', toolArgs = [],
                    r_riskLevel = critical,
                    r_reason = ''Tool '' @ [CHR 0x22] @ ''exec'' @ [CHR 0x22] @
                               '' classified as critical risk'',
                    status = pending, createdAt = ''t0'', resolvedAt = None \<rparr>,
                f_promise = None, f_timer = False, f_state = Sending \<rparr>],
             appended = [] \<rparr>"
    using rc by (simp add: interceptBegin_def sample_event_def)
  have g1: "frames sample_registered =
           [\<lparr> f_event = sample_event, f_risk = critical,
                f_request = \<lparr> requestId = ''req-1'', r_toolName = ''exec'', toolArgs = [],
                    r_riskLevel = critical,
                    r_reason = ''Tool '' @ [CHR 0x22] @ ''exec'' @ [CHR 0x22] @
                               '' classified as critical risk'',
                    status = pending, createdAt = ''t0'', resolvedAt = None \<rparr>,
                f_promise = None, f_timer = True, f_state = Waiting \<rparr>]"
    by (simp add: sample_registered_def b waitForApproval_def newGate_def)
  have g2: "frames sample_approved =
           [\<lparr> f_event = sample_event, f_risk = critical,
                f_request = \<lparr> requestId = ''req-1'', r_toolName = ''exec'', toolArgs = [],
                    r_riskLevel = critical,
                    r_reason = ''Tool '' @ [CHR 0x22] @ ''exec'' @ [CHR 0x22] @
                               '' classified as critical risk'',
                    status = pending, createdAt = ''t0'', resolvedAt = None \<rparr>,
                f_promise = Some True, f_timer = True, f_state = Waiting \<rparr>]"
    by (simp add: sample_approved_def b waitForApproval_def newGate_def handleResponse_def
          resolve_def)
  have h1: "distinct (uuids (?es1 @ []))" and h2: "distinct (uuids (?es2 @ ?es3))" by simp_all
  have a1: "0 < length (frames (run_gate ?es1 (newGate ?cfg)))"
    using g1 by (simp add: sample_registered_def del: run_gate.simps)
  have a2: "0 < length (frames (run_gate ?es2 (newGate ?cfg)))"
    using g2 by (simp add: sample_approved_def del: run_gate.simps)
  have w1: "f_state (frames sample_registered ! 0) = Waiting \<and>
            f_promise (frames sample_registered ! 0) = None"
    and r1: "rid sample_registered 0 = ''req-1''"
    by (simp_all add: g1 rid_def)
  have w2: "f_promise (frames sample_approved ! 0) = Some True"
    and r2: "rid sample_approved 0 = ''req-1''" and s2: "statusOf sample_approved 0 = pending"
    by (simp_all add: g2 rid_def statusOf_def)
  have t1: "fst (handleResponse ''req-1'' True sample_registered) = True \<and>
            statusOf (timeoutCallback 0 sample_registered) 0 = timeout"
    using consent_resolved_once[OF h1 a1, of True undefined undefined undefined] w1
    unfolding Let_def sample_registered_def[symmetric] r1 by simp
  have t2: "handleResponse ''req-1'' False sample_raced = (False, sample_raced) \<and>
            timeoutCallback 0 sample_raced = sample_raced \<and>
            (finished (frames sample_raced ! 0) \<longrightarrow>
               statusOf sample_raced 0 = terminal (statusOf sample_approved 0) True \<and>
               decisions ''req-1'' sample_raced =
                 [decisionRecord (frames sample_raced ! 0) (statusOf sample_raced 0) True]) \<and>
            (\<not> finished (frames sample_raced ! 0) \<longrightarrow> decisions ''req-1'' sample_raced = [])"
    using consent_resolved_once[OF h2 a2, of False True undefined undefined] w2
    unfolding Let_def sample_approved_def[symmetric] sample_raced_def[symmetric] r2 by simp
  have pe: "pendingRequests sample_approved ''req-1'' = None"
    by (simp add: sample_approved_def b waitForApproval_def newGate_def handleResponse_def
          resolve_def)
  have f: "finished (frames sample_raced ! 0)"
    by (simp add: sample_raced_def g2 pe timeoutCallback_def handleResponse_def Let_def
          interceptResume_def finished_def)
  from t2 f s2 have st: "statusOf sample_raced 0 = approved"
    and d: "decisions ''req-1'' sample_raced =
              [decisionRecord (frames sample_raced ! 0) (statusOf sample_raced 0) True]"
    by (simp_all add: terminal_def)
  have "map p_action (decisions ''req-1'' sample_raced) = [''consent_approved'']"
    unfolding d st by (simp add: decisionRecord_def)
  with t1 t2 st show ?thesis by simp
qed

subsection \<open>Precedence in \<open>requiresConsent\<close>\<close>

text \<open>
  Claim C7. A name in the never-require list needs no consent, also when it is in the
  always-require list; otherwise a name in the always-require list needs consent;
  otherwise the answer is the comparison of what \<open>classifyRisk\<close> returns with the
  threshold, which for a risk level is \<open>RISK_ORDER\<close> of the level being at least
  \<open>RISK_ORDER\<close> of the threshold, in the order none, low, medium, high, critical.
\<close>

theorem requiresConsent_precedence:
  "(tool \<in> set (neverRequire cfg) \<longrightarrow> requiresConsent cfg tool = False) \<and>
   (tool \<notin> set (neverRequire cfg) \<and> tool \<in> set (alwaysRequire cfg) \<longrightarrow>
      requiresConsent cfg tool = True) \<and>
   (tool \<notin> set (neverRequire cfg) \<and> tool \<notin> set (alwaysRequire cfg) \<longrightarrow>
      requiresConsent cfg tool = riskAtLeast (classifyRisk tool) (riskThreshold cfg)) \<and>
   riskAtLeast (Level r) t = (RISK_ORDER t \<le> RISK_ORDER r) \<and>
   RISK_ORDER none < RISK_ORDER low \<and> RISK_ORDER low < RISK_ORDER medium \<and>
   RISK_ORDER medium < RISK_ORDER high \<and> RISK_ORDER high < RISK_ORDER critical"
  by (simp add: requiresConsent_def)

theorem requiresConsent_precedence_witness:
  "requiresConsent (sample_gate_config [''deploy''] [''deploy''] high) ''deploy'' = False \<and>
   requiresConsent (sample_gate_config [''fs_read''] [] critical) ''fs_read'' = True \<and>
   requiresConsent (sample_gate_config [] [] high) ''send_email'' = False \<and>
   requiresConsent (sample_gate_config [] [] high) ''shell'' = True"
proof -
  have c: "classifyRisk ''send_email'' = Level medium" "classifyRisk ''shell'' = Level critical"
    by (simp_all add: classifyRisk_def property_def TOOL_RISK_MAP_def)
  show ?thesis
    using requiresConsent_precedence[of "''deploy''" "sample_gate_config [''deploy''] [''deploy''] high"]
      requiresConsent_precedence[of "''fs_read''" "sample_gate_config [''fs_read''] [] critical"]
      requiresConsent_precedence[of "''send_email''" "sample_gate_config [] [] high" medium high]
      requiresConsent_precedence[of "''shell''" "sample_gate_config [] [] high" critical high]
    by (simp add: sample_gate_config_def c)
qed

subsection \<open>Classification of names that \<open>Object.prototype\<close> defines\<close>

text \<open>
  Claim C8 fails on the code. The exact lookup is a property read, and for a name such
  as \<open>constructor\<close> it finds the inherited member: \<open>classifyRisk\<close> returns that member
  instead of going on to the substring scan and the default \<open>low\<close> that the
  specification's classifier gives. With it \<open>requiresConsent\<close> is false at threshold
  \<open>low\<close>. The two examples of the claim hold.
\<close>

theorem classifyRisk_inherited_member:
  "classifyRisk ''constructor'' = Inherited ''constructor'' \<and>
   classify_spec ''constructor'' = low \<and>
   requiresConsent (sample_gate_config [] [] low) ''constructor'' = False \<and>
   riskAtLeast (Level (classify_spec ''constructor'')) low = True \<and>
   classifyRisk ''run_shell_command'' = Level critical \<and>
   classifyRisk ''unlisted_tool_xyz'' = Level low"
proof -
  have a: "classifyRisk ''constructor'' = Inherited ''constructor''"
    by (simp add: classifyRisk_def property_def TOOL_RISK_MAP_def OBJECT_PROTOTYPE_KEYS_def)
  have b: "classify_spec ''constructor'' = low"
    by (simp add: classify_spec_def TOOL_RISK_MAP_def toLowerCase_def lower_char_def)
  have c: "classifyRisk ''run_shell_command'' = Level critical"
    by (simp add: classifyRisk_def property_def TOOL_RISK_MAP_def OBJECT_PROTOTYPE_KEYS_def
          toLowerCase_def lower_char_def)
  have d: "classifyRisk ''unlisted_tool_xyz'' = Level low"
    by (simp add: classifyRisk_def property_def TOOL_RISK_MAP_def OBJECT_PROTOTYPE_KEYS_def
          toLowerCase_def lower_char_def)
  show ?thesis
    using a b c d by (simp add: requiresConsent_def sample_gate_config_def)
qed

end
